theory Spec2Isabelle
  imports Complex_Main "HOL-Library.Word"
begin

unbundle bit_operations_syntax

section \<open>Common types\<close>

text \<open>
  The sources are C++ compiled for an LP64 target: \<open>size_t\<close> is an unsigned 64-bit
  integer whose arithmetic wraps around.  Exceptions are values of \<open>error\<close>; a call that
  does not return is the value \<open>None\<close> of an option type.  A data member \<open>name_\<close> of
  a class is the field \<open>name_'\<close> of the record of its objects.
\<close>

type_synonym size_t = "64 word"

datatype error =
  invalid_argument string | runtime_error string | bad_alloc | bad_array_new_length

section \<open>LockFreeQueue (\<^verbatim>\<open>include/core/lock_free_queue.h\<close>)\<close>

text \<open>
  \<open>Node\<close> is the slot of the ring buffer.  The queue object holds the buffer, the
  capacity, the index mask and the two atomic counters.  The model is the sequential
  semantics of the member functions: one call runs to its end before the next starts, so
  an atomic load reads the field and an atomic store writes it.
\<close>

record 'a Node =
  node_data :: 'a
  sequence :: size_t

record 'a LockFreeQueue =
  buffer_' :: "'a Node list"
  capacity_' :: size_t
  mask_' :: size_t
  head_' :: size_t
  tail_' :: size_t

text \<open>
  \<open>next_power_of_2\<close>: the loop \<open>while (power < n) power <<= 1\<close> on 64-bit unsigned
  values.  The shift wraps: from \<open>2 ^ 63\<close> it yields \<open>0\<close>, and from \<open>0\<close> it yields \<open>0\<close>
  again, so the loop is a partial function.
\<close>

partial_function (option) next_power_of_2_loop :: "size_t \<Rightarrow> size_t \<Rightarrow> size_t option" where
  "next_power_of_2_loop pw n =
     (if pw < n then next_power_of_2_loop (push_bit 1 pw) n else Some pw)"

definition next_power_of_2 :: "size_t \<Rightarrow> size_t option" where
  "next_power_of_2 n = (if n \<le> 1 then Some 1 else next_power_of_2_loop 1 n)"

text \<open>
  The largest size of an array object in bytes, \<open>PTRDIFF_MAX\<close> (GCC and Clang on LP64).
\<close>

definition PTRDIFF_MAX :: nat where
  "PTRDIFF_MAX = 2 ^ 63 - 1"

text \<open>
  The constructor.  It has three outcomes: it does not return (\<open>None\<close>, when
  \<open>next_power_of_2\<close> does not), it throws, or it returns the queue.
  \<open>std::make_unique<Node[]>(capacity_)\<close> is \<open>new Node[capacity_]()\<close>: it throws
  \<open>std::bad_array_new_length\<close> when the array would be larger than the largest array
  object, and \<open>std::bad_alloc\<close> when the allocator cannot provide its bytes.
  \<open>sizeof_Node\<close> is \<open>sizeof(Node)\<close> for the payload type at hand, and \<open>available\<close> is
  the number of bytes that the allocator can provide at the time of the call.  \<open>dflt\<close>
  stands for the default-constructed payload that is put into every slot; slot \<open>i\<close> gets
  sequence number \<open>i\<close>.
\<close>

definition LockFreeQueue ::
  "nat \<Rightarrow> nat \<Rightarrow> 'a \<Rightarrow> size_t \<Rightarrow> (error + 'a LockFreeQueue) option" where
  "LockFreeQueue sizeof_Node available dflt requested =
     (case next_power_of_2 requested of
        None \<Rightarrow> None
      | Some cap \<Rightarrow>
          Some (if unat cap * sizeof_Node > PTRDIFF_MAX then Inl bad_array_new_length
                else if unat cap * sizeof_Node > available then Inl bad_alloc
                else Inr \<lparr> buffer_' = map (\<lambda>i. \<lparr> node_data = dflt, sequence = of_nat i \<rparr>)
                                              [0..<unat cap],
                           capacity_' = cap, mask_' = cap - 1, head_' = 0, tail_' = 0 \<rparr>))"

definition capacity :: "'a LockFreeQueue \<Rightarrow> size_t" where
  "capacity q = capacity_' q"

text \<open>
  \<open>std::atomic::compare_exchange_weak\<close>, applied to an atomic that holds \<open>cur\<close>: it
  stores \<open>desired\<close> and returns true when \<open>cur\<close> equals \<open>expected\<close>, unless it fails
  spuriously, which the language permits a weak exchange to do even on equal values.
  Whether it does is not decided by the program, so it is an argument of the model.  The
  result is the returned flag and the new content of the atomic.
\<close>

definition compare_exchange_weak :: "bool \<Rightarrow> size_t \<Rightarrow> size_t \<Rightarrow> size_t \<Rightarrow> bool \<times> size_t" where
  "compare_exchange_weak spurious cur expected desired =
     (if cur = expected \<and> \<not> spurious then (True, desired) else (False, cur))"

text \<open>
  \<open>try_push\<close> (both overloads have the same body).  \<open>spurious\<close> says whether the
  weak exchange of this call fails spuriously.  The result is the returned flag and the
  queue afterwards.  The slot index is below the length of the buffer in every queue that
  the constructor builds (the mask is the capacity minus one).
\<close>

definition try_push :: "bool \<Rightarrow> 'a \<Rightarrow> 'a LockFreeQueue \<Rightarrow> bool \<times> 'a LockFreeQueue" where
  "try_push spurious v q =
     (let head = head_' q; tail = tail_' q in
      if head - tail \<ge> capacity_' q then (False, q)
      else
        let i = unat (head AND mask_' q); node = buffer_' q ! i in
        if sequence node \<noteq> head then (False, q)
        else
          (case compare_exchange_weak spurious (head_' q) head (head + 1) of
             (False, h) \<Rightarrow> (False, q\<lparr> head_' := h \<rparr>)
           | (True, h) \<Rightarrow>
               (True, q\<lparr> head_' := h,
                         buffer_' := (buffer_' q)[i := \<lparr> node_data = v, sequence = head + 1 \<rparr>] \<rparr>)))"

text \<open>
  \<open>try_pop\<close>.  The result is \<open>Some\<close> of the value written to the reference argument
  when the call returns true, and \<open>None\<close> when it returns false (the argument is then
  untouched).  The payload left behind in the slot by \<open>std::move\<close> is modelled as
  unchanged.
\<close>

definition try_pop :: "bool \<Rightarrow> 'a LockFreeQueue \<Rightarrow> 'a option \<times> 'a LockFreeQueue" where
  "try_pop spurious q =
     (let tail = tail_' q; head = head_' q in
      if tail \<ge> head then (None, q)
      else
        let i = unat (tail AND mask_' q); node = buffer_' q ! i in
        if sequence node \<noteq> tail + 1 then (None, q)
        else
          (case compare_exchange_weak spurious (tail_' q) tail (tail + 1) of
             (False, t) \<Rightarrow> (None, q\<lparr> tail_' := t \<rparr>)
           | (True, t) \<Rightarrow>
               (Some (node_data node),
                q\<lparr> tail_' := t,
                   buffer_' := (buffer_' q)[i := node\<lparr> sequence := tail + capacity_' q \<rparr>] \<rparr>)))"

text \<open>
  A caller that issues a sequence of pushes, then a sequence of pops, and records what
  each call returned.  Every call comes with the flag that says whether its weak exchange
  fails spuriously.
\<close>

fun push_all :: "(bool \<times> 'a) list \<Rightarrow> 'a LockFreeQueue \<Rightarrow> bool list \<times> 'a LockFreeQueue" where
  "push_all [] q = ([], q)"
| "push_all ((spurious, v) # rest) q =
     (let (ok, q1) = try_push spurious v q;
          (oks, q2) = push_all rest q1
      in (ok # oks, q2))"

fun pop_all :: "bool list \<Rightarrow> 'a LockFreeQueue \<Rightarrow> 'a option list \<times> 'a LockFreeQueue" where
  "pop_all [] q = ([], q)"
| "pop_all (spurious # rest) q =
     (let (r, q1) = try_pop spurious q;
          (rs, q2) = pop_all rest q1
      in (r # rs, q2))"

section \<open>MemoryPool (\<^verbatim>\<open>src/core/memory_pool.cpp\<close>)\<close>

text \<open>
  Addresses are byte addresses, \<open>nullptr\<close> is \<open>0\<close>.  A \<open>Block\<close> is a \<open>next\<close> pointer
  followed by the payload bytes; on LP64 \<open>sizeof(Block)\<close> is 16, \<open>alignof(Block)\<close> is 8
  and \<open>offsetof(Block, data)\<close> is 8.  The pool object keeps its chunks, the head of the
  free list and its counters.  A chunk is the \<open>char\<close> array that one \<open>unique_ptr\<close> of
  \<open>chunks_\<close> owns: its start address and its length in bytes (the pointer alone is all
  that the pool can read).  \<open>block_next\<close> is the part of the heap that the pool writes:
  the \<open>next\<close> field of the block that starts at an address.
\<close>

type_synonym addr = nat

definition sizeof_Block :: size_t where
  "sizeof_Block = 16"

definition alignof_Block :: size_t where
  "alignof_Block = 8"

definition offsetof_Block_data :: nat where
  "offsetof_Block_data = 8"

record MemoryPool =
  block_size_' :: size_t
  chunks_' :: "(addr \<times> nat) list"
  free_list_' :: addr
  total_blocks_' :: size_t
  allocated_blocks_' :: size_t
  block_next :: "addr \<Rightarrow> addr"

text \<open>
  \<open>expand_pool\<close>.  \<open>std::make_unique<char[]>(chunk_size)\<close> throws
  \<open>std::bad_array_new_length\<close> when the array would be larger than the largest array
  object, and \<open>std::bad_alloc\<close> when the allocator cannot provide it; the pool is then as
  it was.  \<open>new_chunk\<close> is the answer of the allocator: the start of the new array, or
  \<open>None\<close>.  The loop threads the blocks of the chunk onto the free list, first block
  first.
\<close>

fun expand_pool_loop :: "nat \<Rightarrow> addr \<Rightarrow> MemoryPool \<Rightarrow> MemoryPool" where
  "expand_pool_loop 0 chunk_ptr s = s"
| "expand_pool_loop (Suc n) chunk_ptr s =
     expand_pool_loop n (chunk_ptr + unat (block_size_' s))
       (s\<lparr> block_next := (block_next s)(chunk_ptr := free_list_' s), free_list_' := chunk_ptr \<rparr>)"

definition expand_pool :: "size_t \<Rightarrow> addr option \<Rightarrow> MemoryPool \<Rightarrow> error + MemoryPool" where
  "expand_pool num_blocks new_chunk s =
     (let chunk_size = block_size_' s * num_blocks in
      if unat chunk_size > PTRDIFF_MAX then Inl bad_array_new_length
      else
        case new_chunk of
          None \<Rightarrow> Inl bad_alloc
        | Some chunk \<Rightarrow>
            let s1 = expand_pool_loop (unat num_blocks) chunk s
            in Inr (s1\<lparr> chunks_' := chunks_' s1 @ [(chunk, unat chunk_size)],
                       total_blocks_' := total_blocks_' s1 + num_blocks \<rparr>))"

text \<open>
  The constructor throws \<open>std::invalid_argument\<close> on a zero block size; otherwise it
  pads the block size and, for a positive number of initial blocks, allocates the first
  chunk.
\<close>

definition MemoryPool :: "size_t \<Rightarrow> size_t \<Rightarrow> addr option \<Rightarrow> error + MemoryPool" where
  "MemoryPool block_size initial_blocks new_chunk =
     (if block_size = 0 then Inl (invalid_argument ''Block size must be greater than 0'')
      else
        let t = sizeof_Block + block_size - 1;
            total_block_size =
              (if t mod alignof_Block \<noteq> 0 then t + (alignof_Block - t mod alignof_Block) else t);
            s = \<lparr> block_size_' = total_block_size, chunks_' = [], free_list_' = 0,
                  total_blocks_' = 0, allocated_blocks_' = 0, block_next = (\<lambda>a. 0) \<rparr>
        in if initial_blocks > 0 then expand_pool initial_blocks new_chunk s else Inr s)"

text \<open>
  \<open>is_valid_pointer\<close>: the loop over the chunks.  The end of every chunk is computed
  from \<open>total_blocks_\<close>, the block count of the whole pool, as the source does; the
  length of the chunk plays no part.
\<close>

fun is_valid_pointer_loop :: "(addr \<times> nat) list \<Rightarrow> MemoryPool \<Rightarrow> addr \<Rightarrow> bool" where
  "is_valid_pointer_loop [] s ptr = False"
| "is_valid_pointer_loop (chunk # rest) s ptr =
     (let chunk_start = fst chunk;
          chunk_end = chunk_start + unat (total_blocks_' s * block_size_' s) in
      if ptr \<ge> chunk_start \<and> ptr < chunk_end \<and>
         unat ((of_nat (ptr - chunk_start) :: size_t) mod block_size_' s) = offsetof_Block_data
      then True
      else is_valid_pointer_loop rest s ptr)"

definition is_valid_pointer :: "MemoryPool \<Rightarrow> addr \<Rightarrow> bool" where
  "is_valid_pointer s ptr = (if ptr = 0 then False else is_valid_pointer_loop (chunks_' s) s ptr)"

text \<open>
  \<open>allocate\<close> returns the address of the payload of the block that it takes from the
  free list; \<open>new_chunk\<close> is the outcome of the allocation of a new chunk, which is made
  only when the free list is empty.
\<close>

definition allocate :: "addr option \<Rightarrow> MemoryPool \<Rightarrow> error + (addr \<times> MemoryPool)" where
  "allocate new_chunk s =
     (case (if free_list_' s = 0
            then expand_pool (max 1 (total_blocks_' s div 2)) new_chunk s else Inr s) of
        Inl e \<Rightarrow> Inl e
      | Inr s1 \<Rightarrow>
          let block = free_list_' s1
          in Inr (block + offsetof_Block_data,
                  s1\<lparr> free_list_' := block_next s1 block,
                       allocated_blocks_' := allocated_blocks_' s1 + 1 \<rparr>))"

definition deallocate :: "addr \<Rightarrow> MemoryPool \<Rightarrow> MemoryPool" where
  "deallocate ptr s =
     (if ptr = 0 then s
      else if \<not> is_valid_pointer s ptr then s
      else
        let block = ptr - offsetof_Block_data
        in s\<lparr> block_next := (block_next s)(block := free_list_' s),
              free_list_' := block,
              allocated_blocks_' := allocated_blocks_' s - 1 \<rparr>)"

definition allocated_blocks :: "MemoryPool \<Rightarrow> size_t" where
  "allocated_blocks s = allocated_blocks_' s"

definition total_blocks :: "MemoryPool \<Rightarrow> size_t" where
  "total_blocks s = total_blocks_' s"

text \<open>
  The pools that have not grown: a pool as its constructor leaves it, and what it becomes
  by calls of \<open>allocate\<close> that find a block on the free list and by calls of
  \<open>deallocate\<close>.  All blocks of such a pool lie in the one chunk of its constructor.
\<close>

inductive never_grown :: "MemoryPool \<Rightarrow> bool" where
  constructed: "MemoryPool block_size initial_blocks new_chunk = Inr s \<Longrightarrow> never_grown s"
| allocated: "never_grown s \<Longrightarrow> free_list_' s \<noteq> 0 \<Longrightarrow> allocate new_chunk s = Inr (ptr, s1) \<Longrightarrow>
              never_grown s1"
| deallocated: "never_grown s \<Longrightarrow> never_grown (deallocate ptr s)"

text \<open>
  The free list as \<open>free_blocks()\<close> walks it, from \<open>free_list_\<close> along the \<open>next\<close>
  fields up to the null pointer: the addresses of its first \<open>n\<close> blocks.
\<close>

fun free_list_walk :: "nat \<Rightarrow> (addr \<Rightarrow> addr) \<Rightarrow> addr \<Rightarrow> addr list" where
  "free_list_walk 0 next_of current = []"
| "free_list_walk (Suc n) next_of current =
     (if current = 0 then [] else current # free_list_walk n next_of (next_of current))"

definition free_list_blocks :: "nat \<Rightarrow> MemoryPool \<Rightarrow> addr list" where
  "free_list_blocks n s = free_list_walk n (block_next s) (free_list_' s)"

text \<open>
  An address is null or lies at a multiple of the block size \<open>b\<close> after the start of a
  chunk; \<open>block_start\<close> says so of the chunks of a pool.
\<close>

definition aligned_to :: "addr \<Rightarrow> nat \<Rightarrow> addr \<Rightarrow> bool" where
  "aligned_to chunk_start b a = (a = 0 \<or> (chunk_start \<le> a \<and> (a - chunk_start) mod b = 0))"

definition block_start :: "MemoryPool \<Rightarrow> addr \<Rightarrow> bool" where
  "block_start s a =
     (a = 0 \<or> list_ex (\<lambda>ch. aligned_to (fst ch) (unat (block_size_' s)) a) (chunks_' s))"

text \<open>A caller that allocates block after block and keeps no pointer.\<close>

fun allocations :: "addr option list \<Rightarrow> MemoryPool \<Rightarrow> error + MemoryPool" where
  "allocations [] s = Inr s"
| "allocations (new_chunk # rest) s =
     (case allocate new_chunk s of Inl e \<Rightarrow> Inl e | Inr (ptr, s1) \<Rightarrow> allocations rest s1)"

text \<open>
  Sample pools.  \<open>test_pool\<close> is the pool of the repository's own test,
  \<open>MemoryPool pool(sizeof(int), 5)\<close>, with its chunk at address 4096: blocks of 24 bytes
  at 4096, 4120, 4144, 4168 and 4192, in a chunk of 120 bytes.  \<open>grown_pool\<close> is that pool
  after six calls of \<open>allocate\<close>; the sixth finds the free list empty and adds a chunk of
  two blocks, at address 8192.
\<close>

definition test_pool :: MemoryPool where
  "test_pool =
     \<lparr> block_size_' = 24, chunks_' = [(4096, 120)], free_list_' = 4192,
       total_blocks_' = 5, allocated_blocks_' = 0,
       block_next = (\<lambda>a. 0)(4096 := 0, 4120 := 4096, 4144 := 4120, 4168 := 4144, 4192 := 4168) \<rparr>"

definition grown_pool :: MemoryPool where
  "grown_pool =
     \<lparr> block_size_' = 24, chunks_' = [(4096, 120), (8192, 48)], free_list_' = 8192,
       total_blocks_' = 7, allocated_blocks_' = 6,
       block_next = (\<lambda>a. 0)(4096 := 0, 4120 := 4096, 4144 := 4120, 4168 := 4144, 4192 := 4168,
                             8192 := 0, 8216 := 8192) \<rparr>"

section \<open>ThreadPool (\<^verbatim>\<open>include/core/thread_pool.h\<close>, \<^verbatim>\<open>src/core/thread_pool.cpp\<close>)\<close>

text \<open>
  The pool as its callers see it between calls: the number of worker threads in
  \<open>workers_\<close>, the task queue, the stop flag and the counters.  A task is a value of the
  type \<open>'task\<close>; running it is taken to return (an exception it throws is swallowed by
  the worker).
\<close>

record 'task ThreadPool =
  workers_' :: nat
  tasks_' :: "'task list"
  stop_' :: bool
  active_tasks_' :: size_t
  completed_tasks_' :: size_t

text \<open>
  The constructor; \<open>hardware_concurrency\<close> is what \<open>std::thread::hardware_concurrency()\<close>
  returns.
\<close>

definition ThreadPool :: "size_t \<Rightarrow> size_t \<Rightarrow> 'task ThreadPool" where
  "ThreadPool num_threads hardware_concurrency =
     (let n = (if num_threads = 0
               then (if hardware_concurrency = 0 then 4 else hardware_concurrency)
               else num_threads)
      in \<lparr> workers_' = unat n, tasks_' = [], stop_' = False,
            active_tasks_' = 0, completed_tasks_' = 0 \<rparr>)"

text \<open>
  \<open>submit\<close>: the check of \<open>stop_\<close> and the \<open>emplace\<close> under the queue lock.  The
  exception is the \<open>Inl\<close> result; the pool is then as it was.
\<close>

definition submit :: "'task \<Rightarrow> 'task ThreadPool \<Rightarrow> error + 'task ThreadPool" where
  "submit task s =
     (if stop_' s then Inl (runtime_error ''submit on stopped ThreadPool'')
      else Inr (s\<lparr> tasks_' := tasks_' s @ [task] \<rparr>))"

definition pending_tasks :: "'task ThreadPool \<Rightarrow> nat" where
  "pending_tasks s = length (tasks_' s)"

text \<open>
  One pass of a worker through the body of \<open>worker_function\<close>, once its wait is over:
  \<open>None\<close> when the worker returns (stop requested and the queue empty), otherwise the
  pool after it has taken the front task and run it.
\<close>

definition worker_function_pass :: "'task ThreadPool \<Rightarrow> 'task ThreadPool option" where
  "worker_function_pass s =
     (if stop_' s \<and> tasks_' s = [] then None
      else
        (case tasks_' s of
           [] \<Rightarrow> Some s
         | task # rest \<Rightarrow>
             Some (s\<lparr> tasks_' := rest, completed_tasks_' := completed_tasks_' s + 1 \<rparr>)))"

text \<open>
  \<open>join\<close> on the workers returns when every worker has returned from
  \<open>worker_function\<close>; until then the workers keep making passes.  With no stop request
  and an empty queue they wait for ever, and so does the join.
\<close>

partial_function (option) join_workers :: "'task ThreadPool \<Rightarrow> 'task ThreadPool option" where
  "join_workers s =
     (case worker_function_pass s of
        None \<Rightarrow> Some s
      | Some s1 \<Rightarrow> join_workers s1)"

definition shutdown :: "'task ThreadPool \<Rightarrow> 'task ThreadPool option" where
  "shutdown s =
     (let s1 = s\<lparr> stop_' := True \<rparr> in
      if workers_' s1 = 0 then Some s1
      else map_option (\<lambda>s2. s2\<lparr> workers_' := 0 \<rparr>) (join_workers s1))"

text \<open>
  A caller's sequence of calls on one pool.  A \<open>submit\<close> that throws leaves the pool as
  it was and the caller goes on to its next call.
\<close>

datatype 'task call = Submit 'task | Shutdown

fun run_calls :: "'task call list \<Rightarrow> 'task ThreadPool \<Rightarrow> 'task ThreadPool option" where
  "run_calls [] s = Some s"
| "run_calls (Submit task # rest) s =
     (case submit task s of Inl e \<Rightarrow> run_calls rest s | Inr s1 \<Rightarrow> run_calls rest s1)"
| "run_calls (Shutdown # rest) s =
     (case shutdown s of None \<Rightarrow> None | Some s1 \<Rightarrow> run_calls rest s1)"

section \<open>CacheManager (\<^verbatim>\<open>src/data/cache_manager.cpp\<close>)\<close>

text \<open>
  A \<open>MarketDataSeries\<close> is a symbol and a vector of data points; the points themselves
  play no part in the cache and stay abstract.  Time points of the steady clock are
  integers (ticks), and so are durations.
\<close>

type_synonym time_point = int

record 'p MarketDataSeries =
  symbol_' :: string
  data_' :: "'p list"

record 'p CacheEntry =
  data :: "'p MarketDataSeries"
  size_bytes :: size_t
  last_accessed :: time_point
  created :: time_point

text \<open>
  The cache object.  \<open>cache_\<close>, a \<open>std::unordered_map\<close>, is an association list with
  pairwise distinct keys (the order of the list stands for the unspecified iteration
  order of the map); \<open>lru_list_\<close> has the most recently used key first.  \<open>disk\<close> is the
  content of the cache directory: the series stored in the file \<open>key.cache\<close>, for every
  key that has one.  The object is one built without a thread pool (\<open>thread_pool_\<close> is
  null), so \<open>put\<close> writes its file before it returns.  The calls are those of one
  thread, one after the other; \<open>cache_mutex_\<close> shows only where a member function locks
  it while it holds it.
\<close>

record 'p CacheManager =
  cache_' :: "(string \<times> 'p CacheEntry) list"
  lru_list_' :: "string list"
  max_memory_bytes_' :: size_t
  current_memory_bytes_' :: size_t
  total_requests_' :: size_t
  cache_hits_' :: size_t
  disk :: "string \<rightharpoonup> 'p MarketDataSeries"

text \<open>
  The operations of \<open>std::unordered_map\<close> that the cache uses: \<open>find\<close>, \<open>erase\<close> and
  assignment through \<open>operator[]\<close>.
\<close>

definition find :: "string \<Rightarrow> (string \<times> 'v) list \<Rightarrow> 'v option" where
  "find key m = map_of m key"

definition erase :: "string \<Rightarrow> (string \<times> 'v) list \<Rightarrow> (string \<times> 'v) list" where
  "erase key m = filter (\<lambda>kv. fst kv \<noteq> key) m"

fun assign :: "string \<Rightarrow> 'v \<Rightarrow> (string \<times> 'v) list \<Rightarrow> (string \<times> 'v) list" where
  "assign key v [] = [(key, v)]"
| "assign key v (kv # m) = (if fst kv = key then (key, v) # m else kv # assign key v m)"

text \<open>
  The constructor: \<open>files\<close> is what the cache directory holds, \<open>metadata\<close> the two
  counters of \<open>metadata.json\<close> when that file can be read.
\<close>

definition CacheManager ::
  "size_t \<Rightarrow> (string \<rightharpoonup> 'p MarketDataSeries) \<Rightarrow> (size_t \<times> size_t) option \<Rightarrow> 'p CacheManager" where
  "CacheManager max_memory_mb files metadata =
     \<lparr> cache_' = [], lru_list_' = [],
       max_memory_bytes_' = max_memory_mb * 1024 * 1024, current_memory_bytes_' = 0,
       total_requests_' = (case metadata of None \<Rightarrow> 0 | Some (requests, hits) \<Rightarrow> requests),
       cache_hits_' = (case metadata of None \<Rightarrow> 0 | Some (requests, hits) \<Rightarrow> hits),
       disk = files \<rparr>"

text \<open>
  \<open>estimate_memory_usage\<close>, with \<open>sizeof(MarketDataPoint)\<close> = 48 and
  \<open>sizeof(std::vector<MarketDataPoint>)\<close> = 24 (LP64, libstdc++).
\<close>

definition sizeof_MarketDataPoint :: size_t where
  "sizeof_MarketDataPoint = 48"

definition sizeof_vector :: size_t where
  "sizeof_vector = 24"

definition estimate_memory_usage :: "'p MarketDataSeries \<Rightarrow> size_t" where
  "estimate_memory_usage d =
     (let base_size = sizeof_MarketDataPoint * of_nat (length (data_' d));
          overhead = of_nat (length (symbol_' d)) + sizeof_vector + 100
      in base_size + overhead)"

text \<open>
  \<open>get\<close> returns the cached series, if any, and the cache afterwards; \<open>now\<close> is the
  reading of the clock.
\<close>

definition get :: "string \<Rightarrow> time_point \<Rightarrow> 'p CacheManager \<Rightarrow> 'p MarketDataSeries option \<times> 'p CacheManager" where
  "get key now s =
     (case find key (cache_' s) of
        None \<Rightarrow> (None, s)
      | Some entry \<Rightarrow>
          (Some (data entry),
           s\<lparr> cache_' := assign key (entry\<lparr> last_accessed := now \<rparr>) (cache_' s),
              lru_list_' := key # removeAll key (lru_list_' s) \<rparr>))"

definition evict_lru_item :: "'p CacheManager \<Rightarrow> 'p CacheManager" where
  "evict_lru_item s =
     (if lru_list_' s = [] then s
      else
        let key_to_evict = last (lru_list_' s);
            s1 = s\<lparr> lru_list_' := butlast (lru_list_' s) \<rparr>
        in (case find key_to_evict (cache_' s1) of
              None \<Rightarrow> s1
            | Some entry \<Rightarrow>
                s1\<lparr> current_memory_bytes_' := current_memory_bytes_' s1 - size_bytes entry,
                     cache_' := erase key_to_evict (cache_' s1) \<rparr>))"

text \<open>
  The eviction loop of \<open>put\<close>.  Nothing in the loop itself bounds the number of rounds:
  with an empty recency list and a non-empty map \<open>evict_lru_item\<close> changes nothing.
\<close>

partial_function (option) put_evict_loop :: "size_t \<Rightarrow> 'p CacheManager \<Rightarrow> 'p CacheManager option" where
  "put_evict_loop data_size s =
     (if current_memory_bytes_' s + data_size > max_memory_bytes_' s \<and> cache_' s \<noteq> []
      then put_evict_loop data_size (evict_lru_item s)
      else Some s)"

text \<open>
  \<open>persist_to_disk\<close> writes the file of the key when the file can be opened
  (\<open>file_opens\<close>) and does nothing otherwise.
\<close>

definition persist_to_disk :: "bool \<Rightarrow> string \<Rightarrow> 'p MarketDataSeries \<Rightarrow> 'p CacheManager \<Rightarrow> 'p CacheManager" where
  "persist_to_disk file_opens key d s =
     (if file_opens then s\<lparr> disk := (disk s)(key \<mapsto> d) \<rparr> else s)"

text \<open>
  \<open>put\<close>; \<open>now\<close> is the reading of the clock for both time stamps of the new entry.
\<close>

definition put :: "string \<Rightarrow> 'p MarketDataSeries \<Rightarrow> time_point \<Rightarrow> bool \<Rightarrow> 'p CacheManager \<Rightarrow> 'p CacheManager option" where
  "put key d now file_opens s =
     (let data_size = estimate_memory_usage d in
      case put_evict_loop data_size s of
        None \<Rightarrow> None
      | Some s1 \<Rightarrow>
          if current_memory_bytes_' s1 + data_size > max_memory_bytes_' s1 then Some s1
          else
            let entry = \<lparr> data = d, size_bytes = data_size, last_accessed = now, created = now \<rparr>;
                s2 = (case find key (cache_' s1) of
                        None \<Rightarrow> s1
                      | Some existing \<Rightarrow>
                          s1\<lparr> current_memory_bytes_' := current_memory_bytes_' s1 - size_bytes existing,
                               lru_list_' := removeAll key (lru_list_' s1) \<rparr>);
                s3 = s2\<lparr> cache_' := assign key entry (cache_' s2),
                          current_memory_bytes_' := current_memory_bytes_' s2 + data_size,
                          lru_list_' := key # lru_list_' s2 \<rparr>
            in Some (persist_to_disk file_opens key d s3))"

definition remove :: "string \<Rightarrow> 'p CacheManager \<Rightarrow> 'p CacheManager" where
  "remove key s =
     (case find key (cache_' s) of
        None \<Rightarrow> s
      | Some entry \<Rightarrow>
          s\<lparr> current_memory_bytes_' := current_memory_bytes_' s - size_bytes entry,
             lru_list_' := removeAll key (lru_list_' s),
             cache_' := erase key (cache_' s),
             disk := (disk s)(key := None) \<rparr>)"

text \<open>
  \<open>clear\<close> empties the map and the list and deletes the regular files with the extension
  \<^verbatim>\<open>.cache\<close> that lie in the cache directory itself.  The file of the empty key,
  \<^verbatim>\<open>.cache\<close>, has no extension, and the file of a key with a \<^verbatim>\<open>/\<close> lies in a
  subdirectory: these files stay.  (Distinct keys are taken to name distinct files.)
\<close>

definition clear :: "'p CacheManager \<Rightarrow> 'p CacheManager" where
  "clear s =
     s\<lparr> cache_' := [], lru_list_' := [], current_memory_bytes_' := 0,
        disk := (\<lambda>key. if key \<noteq> [] \<and> CHR ''/'' \<notin> set key then None else disk s key) \<rparr>"

definition contains :: "string \<Rightarrow> 'p CacheManager \<Rightarrow> bool" where
  "contains key s = (find key (cache_' s) \<noteq> None)"

definition size_of_cache :: "'p CacheManager \<Rightarrow> nat" where
  "size_of_cache s = length (cache_' s)"

definition memory_usage :: "'p CacheManager \<Rightarrow> size_t" where
  "memory_usage s = current_memory_bytes_' s"

text \<open>
  \<open>hit_rate\<close>: the quotient of the two counters (computed in \<open>double\<close> by the source,
  here exactly), and \<open>0\<close> when no request is recorded.
\<close>

definition hit_rate :: "'p CacheManager \<Rightarrow> real" where
  "hit_rate s =
     (if total_requests_' s = 0 then 0
      else real (unat (cache_hits_' s)) / real (unat (total_requests_' s)))"

text \<open>
  \<open>cleanup_expired_entries\<close> locks \<open>cache_mutex_\<close>, collects the keys of the entries older
  than \<open>max_age\<close> and calls \<open>remove\<close> on each.  \<open>remove\<close> locks \<open>cache_mutex_\<close>, a
  \<open>std::mutex\<close> that the caller holds: the first such call waits for its own thread and
  does not return (\<open>None\<close>), with the cache unchanged.  The call returns when no entry
  has expired.
\<close>

definition cleanup_expired_entries :: "int \<Rightarrow> time_point \<Rightarrow> 'p CacheManager \<Rightarrow> 'p CacheManager option" where
  "cleanup_expired_entries max_age now s =
     (let to_remove = map fst (filter (\<lambda>kv. now - created (snd kv) > max_age) (cache_' s))
      in if to_remove = [] then Some s else None)"

text \<open>
  The states a cache object can be in: the state the constructor leaves, and every state
  that one of the operations leaves when it is run in such a state.
  (\<open>cleanup_expired_entries\<close> returns only with the cache as it was; the states that the
  removal of expired entries would leave are those of the rule for \<open>remove\<close>.)
\<close>

inductive reachable :: "'p CacheManager \<Rightarrow> bool" where
  init: "reachable (CacheManager max_memory_mb files metadata)"
| after_put: "reachable s \<Longrightarrow> put key d now file_opens s = Some s1 \<Longrightarrow> reachable s1"
| after_get: "reachable s \<Longrightarrow> reachable (snd (get key now s))"
| after_remove: "reachable s \<Longrightarrow> reachable (remove key s)"
| after_clear: "reachable s \<Longrightarrow> reachable (clear s)"
| after_cleanup: "reachable s \<Longrightarrow> cleanup_expired_entries max_age now s = Some s1 \<Longrightarrow> reachable s1"
| after_evict: "reachable s \<Longrightarrow> reachable (evict_lru_item s)"

text \<open>
  The two tests of \<open>put\<close>: the payload does not fit into the budget next to what is
  cached (the sum is a \<open>size_t\<close> sum), and the condition of the eviction loop.
\<close>

definition over_budget :: "size_t \<Rightarrow> 'p CacheManager \<Rightarrow> bool" where
  "over_budget data_size s = (current_memory_bytes_' s + data_size > max_memory_bytes_' s)"

definition must_evict :: "size_t \<Rightarrow> 'p CacheManager \<Rightarrow> bool" where
  "must_evict data_size s = (over_budget data_size s \<and> cache_' s \<noteq> [])"

text \<open>The cache after \<open>n\<close> calls of \<open>evict_lru_item\<close>.\<close>

definition evicted :: "nat \<Rightarrow> 'p CacheManager \<Rightarrow> 'p CacheManager" where
  "evicted n s = (evict_lru_item ^^ n) s"

text \<open>The sum of \<open>size_bytes\<close> over the entries of the map, in \<open>size_t\<close> arithmetic.\<close>

definition sum_size_bytes :: "(string \<times> 'p CacheEntry) list \<Rightarrow> size_t" where
  "sum_size_bytes m = sum_list (map (\<lambda>kv. size_bytes (snd kv)) m)"

text \<open>
  The recency list is a permutation of the key set of the map (and the keys of the map
  are pairwise distinct, as those of a \<open>std::unordered_map\<close> are).
\<close>

definition recency_invariant :: "'p CacheManager \<Rightarrow> bool" where
  "recency_invariant s =
     (distinct (map fst (cache_' s)) \<and> distinct (lru_list_' s) \<and>
      set (lru_list_' s) = set (map fst (cache_' s)))"

text \<open>
  Sample data.  \<open>sample_cache\<close> is a cache with a budget of one megabyte after one
  \<open>put\<close> of a series of two points; a \<open>big_series\<close> has 12000 points, so that two of them
  do not fit into that budget together; \<open>cache_after_eviction\<close> is the cache after the
  \<open>put\<close> of a big series under the key \<open>a\<close> and then of another under the key \<open>b\<close>.
\<close>

definition sample_series :: "unit MarketDataSeries" where
  "sample_series = \<lparr> symbol_' = ''AAPL'', data_' = [(), ()] \<rparr>"

definition sample_cache :: "unit CacheManager" where
  "sample_cache =
     \<lparr> cache_' = [(''AAPL'', \<lparr> data = sample_series, size_bytes = 224,
                               last_accessed = 1, created = 1 \<rparr>)],
       lru_list_' = [''AAPL''],
       max_memory_bytes_' = 1048576, current_memory_bytes_' = 224,
       total_requests_' = 0, cache_hits_' = 0,
       disk = [''AAPL'' \<mapsto> sample_series] \<rparr>"

definition big_series :: "string \<Rightarrow> unit MarketDataSeries" where
  "big_series name = \<lparr> symbol_' = name, data_' = replicate 12000 () \<rparr>"

definition cache_after_eviction :: "unit CacheManager" where
  "cache_after_eviction =
     \<lparr> cache_' = [(''b'', \<lparr> data = big_series ''B'', size_bytes = 576125,
                            last_accessed = 2, created = 2 \<rparr>)],
       lru_list_' = [''b''],
       max_memory_bytes_' = 1048576, current_memory_bytes_' = 576125,
       total_requests_' = 0, cache_hits_' = 0,
       disk = [''a'' \<mapsto> big_series ''A'', ''b'' \<mapsto> big_series ''B''] \<rparr>"
section \<open>Proofs: LockFreeQueue\<close>

lemma unat_of_nat_small: "k < 2 ^ 64 \<Longrightarrow> unat (of_nat k :: size_t) = k"
  by (simp add: unat_of_nat)

lemma pow_lt_64: "r \<le> 63 \<Longrightarrow> (2::nat) ^ r < 2 ^ 64"
  by (rule power_strict_increasing) auto

lemma unat_p2: "r \<le> 63 \<Longrightarrow> unat ((2::size_t) ^ r) = 2 ^ r"
proof -
  assume r: "r \<le> 63"
  have "(2::size_t) ^ r = of_nat (2 ^ r)" by simp
  then show ?thesis using unat_of_nat_small[OF pow_lt_64[OF r]] by simp
qed

lemma idx_small:
  assumes "r \<le> 63" "k < 2 ^ r"
  shows "unat (of_nat k :: size_t) = k"
    and "\<not> (2::size_t) ^ r \<le> of_nat k"
    and "unat ((of_nat k :: size_t) AND (2 ^ r - 1)) = k"
proof -
  have k64: "k < 2 ^ 64" using assms pow_lt_64[of r] by linarith
  show u: "unat (of_nat k :: size_t) = k" by (rule unat_of_nat_small[OF k64])
  show "\<not> (2::size_t) ^ r \<le> of_nat k"
    using assms u by (simp add: word_le_nat_alt unat_p2)
  have "(of_nat k :: size_t) < 2 ^ r"
    using assms u by (simp add: word_less_nat_alt unat_p2)
  then have "(of_nat k :: size_t) AND mask r = of_nat k" by (rule less_mask_eq)
  then show "unat ((of_nat k :: size_t) AND (2 ^ r - 1)) = k"
    using u by (simp add: mask_eq_decr_exp)
qed

lemma try_push_ok:
  assumes "capacity_' q = 2 ^ r" "r \<le> 63" "mask_' q = 2 ^ r - 1"
    and "head_' q = of_nat k" "tail_' q = 0" "k < 2 ^ r"
    and "sequence (buffer_' q ! k) = of_nat k"
  shows "try_push False v q =
           (True, q\<lparr> head_' := of_nat (Suc k),
                     buffer_' := (buffer_' q)[k := \<lparr> node_data = v, sequence = of_nat (Suc k) \<rparr>] \<rparr>)"
  using assms idx_small[of r k]
  by (simp add: try_push_def compare_exchange_weak_def Let_def add.commute)

lemma try_pop_ok:
  assumes "capacity_' q = 2 ^ r" "r \<le> 63" "mask_' q = 2 ^ r - 1"
    and "head_' q = of_nat n" "tail_' q = of_nat j" "j < n" "n \<le> 2 ^ r"
    and "buffer_' q ! j = \<lparr> node_data = w, sequence = of_nat (Suc j) \<rparr>"
  shows "try_pop False q =
           (Some w, q\<lparr> tail_' := of_nat (Suc j),
                       buffer_' := (buffer_' q)[j := \<lparr> node_data = w, sequence = of_nat j + 2 ^ r \<rparr>] \<rparr>)"
proof -
  have j: "j < 2 ^ r" using assms by simp
  have n64: "n < 2 ^ 64" using assms pow_lt_64[of r] by linarith
  have "unat (of_nat n :: size_t) = n" by (rule unat_of_nat_small[OF n64])
  then have "\<not> (of_nat n :: size_t) \<le> of_nat j"
    using assms idx_small(1)[OF assms(2) j] by (simp add: word_le_nat_alt)
  then show ?thesis
    using assms idx_small[OF assms(2) j]
    by (simp add: try_pop_def compare_exchange_weak_def Let_def add.commute)
qed

lemma push_all_ok:
  assumes "capacity_' q = 2 ^ r" "r \<le> 63" "mask_' q = 2 ^ r - 1" "length (buffer_' q) = 2 ^ r"
    and "head_' q = of_nat k" "tail_' q = 0" "k + length vs \<le> 2 ^ r"
    and "\<forall>i. k \<le> i \<and> i < 2 ^ r \<longrightarrow> sequence (buffer_' q ! i) = of_nat i"
  shows "\<exists>q'. push_all (map (Pair False) vs) q = (replicate (length vs) True, q') \<and>
           capacity_' q' = 2 ^ r \<and> mask_' q' = 2 ^ r - 1 \<and> length (buffer_' q') = 2 ^ r \<and>
           head_' q' = of_nat (k + length vs) \<and> tail_' q' = 0 \<and>
           (\<forall>i < length vs. buffer_' q' ! (k + i) = \<lparr> node_data = vs ! i, sequence = of_nat (Suc (k + i)) \<rparr>) \<and>
           (\<forall>i < k. buffer_' q' ! i = buffer_' q ! i)"
  using assms
proof (induction vs arbitrary: q k)
  case Nil
  then show ?case by simp
next
  case (Cons v vs)
  let ?q1 = "q\<lparr> head_' := of_nat (Suc k),
               buffer_' := (buffer_' q)[k := \<lparr> node_data = v, sequence = of_nat (Suc k) \<rparr>] \<rparr>"
  have k: "k < 2 ^ r" using Cons.prems by simp
  have step: "try_push False v q = (True, ?q1)"
    using Cons.prems k by (intro try_push_ok[where r = r]) auto
  have "\<exists>q'. push_all (map (Pair False) vs) ?q1 = (replicate (length vs) True, q') \<and>
           capacity_' q' = 2 ^ r \<and> mask_' q' = 2 ^ r - 1 \<and> length (buffer_' q') = 2 ^ r \<and>
           head_' q' = of_nat (Suc k + length vs) \<and> tail_' q' = 0 \<and>
           (\<forall>i < length vs. buffer_' q' ! (Suc k + i) = \<lparr> node_data = vs ! i, sequence = of_nat (Suc (Suc k + i)) \<rparr>) \<and>
           (\<forall>i < Suc k. buffer_' q' ! i = buffer_' ?q1 ! i)"
    using Cons.prems by (intro Cons.IH) auto
  then obtain q' where q': "push_all (map (Pair False) vs) ?q1 = (replicate (length vs) True, q')"
      "capacity_' q' = 2 ^ r" "mask_' q' = 2 ^ r - 1" "length (buffer_' q') = 2 ^ r"
      "head_' q' = of_nat (Suc k + length vs)" "tail_' q' = 0"
      "\<forall>i < length vs. buffer_' q' ! (Suc k + i) = \<lparr> node_data = vs ! i, sequence = of_nat (Suc (Suc k + i)) \<rparr>"
      "\<forall>i < Suc k. buffer_' q' ! i = buffer_' ?q1 ! i"
    by blast
  have at_k: "buffer_' q' ! k = \<lparr> node_data = v, sequence = of_nat (Suc k) \<rparr>"
    using q'(8) k Cons.prems(4) by simp
  have new: "\<forall>i < length (v # vs). buffer_' q' ! (k + i) = \<lparr> node_data = (v # vs) ! i, sequence = of_nat (Suc (k + i)) \<rparr>"
  proof (intro allI impI)
    fix i assume "i < length (v # vs)"
    then show "buffer_' q' ! (k + i) = \<lparr> node_data = (v # vs) ! i, sequence = of_nat (Suc (k + i)) \<rparr>"
      using at_k q'(7) by (cases i) auto
  qed
  have old: "\<forall>i < k. buffer_' q' ! i = buffer_' q ! i"
    using q'(8) by simp
  have "push_all (map (Pair False) (v # vs)) q = (replicate (length (v # vs)) True, q')"
    using step q'(1) by simp
  then show ?case using q'(2-6) new old by (intro exI[of _ q']) simp
qed

lemma pop_all_ok:
  assumes "capacity_' q = 2 ^ r" "r \<le> 63" "mask_' q = 2 ^ r - 1" "length (buffer_' q) = 2 ^ r"
    and "head_' q = of_nat n" "tail_' q = of_nat j" "n \<le> 2 ^ r" "j + m \<le> n" "length ws = n"
    and "\<forall>i. j \<le> i \<and> i < n \<longrightarrow> buffer_' q ! i = \<lparr> node_data = ws ! i, sequence = of_nat (Suc i) \<rparr>"
  shows "fst (pop_all (replicate m False) q) = map Some (take m (drop j ws))"
  using assms
proof (induction m arbitrary: q j)
  case 0
  then show ?case by simp
next
  case (Suc m)
  let ?q1 = "q\<lparr> tail_' := of_nat (Suc j),
               buffer_' := (buffer_' q)[j := \<lparr> node_data = ws ! j, sequence = of_nat j + 2 ^ r \<rparr>] \<rparr>"
  have j: "j < n" using Suc.prems by simp
  have step: "try_pop False q = (Some (ws ! j), ?q1)"
    using Suc.prems j by (intro try_pop_ok[where r = r and n = n]) auto
  have rest: "fst (pop_all (replicate m False) ?q1) = map Some (take m (drop (Suc j) ws))"
    using Suc.prems by (intro Suc.IH) auto
  have "take (Suc m) (drop j ws) = ws ! j # take m (drop (Suc j) ws)"
    using j Suc.prems(9) by (simp add: Cons_nth_drop_Suc[symmetric])
  then show ?case using step rest by (simp add: split_beta)
qed

lemma np2_loop_zero: "0 < n \<Longrightarrow> next_power_of_2_loop 0 n = None"
proof (rule ccontr)
  assume n: "0 < n" and "next_power_of_2_loop 0 n \<noteq> None"
  then obtain y where y: "next_power_of_2_loop 0 n = Some y" by auto
  have "\<not> (0 = (0::size_t) \<and> 0 < n)"
    by (rule next_power_of_2_loop.raw_induct[where P = "\<lambda>p m y. \<not> (p = 0 \<and> 0 < m)", OF _ y])
       (auto split: if_splits)
  with n show False by simp
qed

lemma push_bit_p2: "push_bit 1 ((2::size_t) ^ m) = 2 ^ Suc m"
  by (simp add: push_bit_eq_mult mult.commute)

lemma np2_loop_pow:
  "63 - m = k \<Longrightarrow> m \<le> 63 \<Longrightarrow> unat n \<le> 2 ^ 63 \<Longrightarrow> (m = 0 \<or> 2 ^ (m - 1) < unat n) \<Longrightarrow>
   \<exists>r. next_power_of_2_loop (2 ^ m) n = Some (2 ^ r) \<and> r \<le> 63 \<and> unat n \<le> 2 ^ r \<and> (r = 0 \<or> 2 ^ (r - 1) < unat n)"
proof (induction k arbitrary: m)
  case 0
  then have m: "m = 63" by simp
  have "\<not> (2::size_t) ^ 63 < n" using 0(3) by (simp add: word_less_nat_alt)
  then have "next_power_of_2_loop (2 ^ 63) n = Some (2 ^ 63)"
    by (subst next_power_of_2_loop.simps) simp
  with 0 m show ?case by (intro exI[of _ 63]) simp
next
  case (Suc k)
  then have m: "m < 63" by simp
  show ?case
  proof (cases "(2::size_t) ^ m < n")
    case True
    then have lt: "2 ^ m < unat n" using m by (simp add: word_less_nat_alt unat_p2)
    have "next_power_of_2_loop (2 ^ m) n = next_power_of_2_loop (2 ^ Suc m) n"
      using True by (subst next_power_of_2_loop.simps) (simp only: push_bit_p2 if_True)
    moreover have "\<exists>r. next_power_of_2_loop (2 ^ Suc m) n = Some (2 ^ r) \<and> r \<le> 63 \<and> unat n \<le> 2 ^ r \<and> (r = 0 \<or> 2 ^ (r - 1) < unat n)"
      using Suc.prems m lt by (intro Suc.IH) auto
    ultimately show ?thesis by simp
  next
    case False
    then have le: "unat n \<le> 2 ^ m" using m by (simp add: word_less_nat_alt unat_p2)
    have "next_power_of_2_loop (2 ^ m) n = Some (2 ^ m)"
      using False by (subst next_power_of_2_loop.simps) simp
    with Suc.prems le show ?thesis by (intro exI[of _ m]) simp
  qed
qed

lemma next_power_of_2_pow:
  assumes "unat n \<le> 2 ^ 63"
  shows "\<exists>r. next_power_of_2 n = Some (2 ^ r) \<and> r \<le> 63 \<and> unat n \<le> 2 ^ r \<and> (r = 0 \<or> 2 ^ (r - 1) < unat n)"
proof (cases "n \<le> 1")
  case True
  then have "unat n \<le> 1" by (simp add: word_le_nat_alt)
  with True show ?thesis by (intro exI[of _ 0]) (simp add: next_power_of_2_def)
next
  case False
  have "\<exists>r. next_power_of_2_loop (2 ^ 0) n = Some (2 ^ r) \<and> r \<le> 63 \<and> unat n \<le> 2 ^ r \<and> (r = 0 \<or> 2 ^ (r - 1) < unat n)"
    using assms by (intro np2_loop_pow[where k = 63]) auto
  with False show ?thesis by (simp add: next_power_of_2_def)
qed

lemma np2_loop_diverges:
  "63 - m = k \<Longrightarrow> m \<le> 63 \<Longrightarrow> 2 ^ 63 < unat n \<Longrightarrow> next_power_of_2_loop (2 ^ m) n = None"
proof (induction k arbitrary: m)
  case 0
  then have m: "m = 63" by simp
  have lt: "(2::size_t) ^ 63 < n" using 0(3) by (simp add: word_less_nat_alt)
  have "0 < n" using 0(3) by (simp add: word_less_nat_alt)
  then have z: "next_power_of_2_loop 0 n = None" by (rule np2_loop_zero)
  have "next_power_of_2_loop (2 ^ 63) n = next_power_of_2_loop (push_bit 1 (2 ^ 63)) n"
    using lt by (subst next_power_of_2_loop.simps) simp
  also have "push_bit 1 ((2::size_t) ^ 63) = 0" by simp
  finally show ?case using z m by simp
next
  case (Suc k)
  then have m: "m < 63" by simp
  have "2 ^ m < (2::nat) ^ 63" using m by (intro power_strict_increasing) auto
  then have "(2::size_t) ^ m < n" using m Suc.prems(3) by (simp add: word_less_nat_alt unat_p2 del: power_strict_increasing_iff)
  then have "next_power_of_2_loop (2 ^ m) n = next_power_of_2_loop (2 ^ Suc m) n"
    by (subst next_power_of_2_loop.simps) (simp only: push_bit_p2 if_True)
  also have "\<dots> = None" using Suc.prems m by (intro Suc.IH) auto
  finally show ?case .
qed

lemma next_power_of_2_diverges: "2 ^ 63 < unat n \<Longrightarrow> next_power_of_2 n = None"
proof -
  assume a: "2 ^ 63 < unat n"
  then have "\<not> n \<le> 1" by (simp add: word_le_nat_alt)
  moreover have "next_power_of_2_loop (2 ^ 0) n = None" using a by (intro np2_loop_diverges[where k = 63]) auto
  ultimately show ?thesis by (simp add: next_power_of_2_def)
qed



lemma next_power_of_2_Some:
  assumes "next_power_of_2 n = Some c"
  shows "\<exists>r. c = 2 ^ r \<and> r \<le> 63 \<and> unat n \<le> 2 ^ r \<and> (r = 0 \<or> 2 ^ (r - 1) < unat n)"
proof (cases "unat n \<le> 2 ^ 63")
  case True
  from next_power_of_2_pow[OF True] assms show ?thesis by auto
next
  case False
  then have "next_power_of_2 n = None" by (intro next_power_of_2_diverges) simp
  with assms show ?thesis by simp
qed

lemma smallest_pow:
  assumes "r = 0 \<or> 2 ^ (r - 1) < (n::nat)" "n \<le> 2 ^ j"
  shows "(2::nat) ^ r \<le> 2 ^ j"
proof (cases "r = 0")
  case True
  then show ?thesis by simp
next
  case False
  with assms have "(2::nat) ^ (r - 1) < 2 ^ j" by linarith
  then have "r - 1 < j" by (rule power_less_imp_less_exp[rotated]) simp
  with False have "r \<le> j" by simp
  then show ?thesis by (simp add: power_increasing)
qed

lemma capacity_try_push: "capacity (snd (try_push sp v q)) = capacity q"
  by (simp add: try_push_def capacity_def compare_exchange_weak_def Let_def)

lemma capacity_try_pop: "capacity (snd (try_pop sp q)) = capacity q"
  by (simp add: try_pop_def capacity_def compare_exchange_weak_def Let_def)

lemmas np2_eval = next_power_of_2_def next_power_of_2_loop.simps word_le_nat_alt word_less_nat_alt

text \<open>
  Claim C8, as amended.  For every requested capacity of at most \<open>2 ^ 63\<close> there is the
  smallest power of two \<open>2 ^ r\<close> that is at least the request (1 for the requests 0 and
  1).  When an array of \<open>2 ^ r\<close> nodes is not larger than the largest array object and the
  allocator can provide it, the constructor returns a queue, and \<open>capacity()\<close> of that
  queue is \<open>2 ^ r\<close>; otherwise the constructor throws and there is no queue.  Neither
  \<open>try_push\<close> nor \<open>try_pop\<close> changes \<open>capacity()\<close>.  With nodes of 16 bytes and 4096
  bytes to be had, the requests 0 and 1 give the capacity 1, 5 gives 8 and 100 gives 128.
\<close>

theorem capacity_smallest_power_of_two:
  assumes "unat requested \<le> 2 ^ 63"
  shows "(\<exists>r \<le> 63. unat requested \<le> 2 ^ r \<and>
            (\<forall>j. unat requested \<le> 2 ^ j \<longrightarrow> (2::nat) ^ r \<le> 2 ^ j) \<and>
            (if 2 ^ r * sizeof_Node \<le> PTRDIFF_MAX \<and> 2 ^ r * sizeof_Node \<le> available
             then \<exists>q. LockFreeQueue sizeof_Node available dflt requested = Some (Inr q) \<and>
                      unat (capacity q) = 2 ^ r
             else \<exists>e. LockFreeQueue sizeof_Node available dflt requested = Some (Inl e))) \<and>
         capacity (snd (try_push sp v q0)) = capacity q0 \<and>
         capacity (snd (try_pop sp q0)) = capacity q0 \<and>
         map_option (map_sum id capacity) (LockFreeQueue 16 4096 dflt 0) = Some (Inr 1) \<and>
         map_option (map_sum id capacity) (LockFreeQueue 16 4096 dflt 1) = Some (Inr 1) \<and>
         map_option (map_sum id capacity) (LockFreeQueue 16 4096 dflt 5) = Some (Inr 8) \<and>
         map_option (map_sum id capacity) (LockFreeQueue 16 4096 dflt 100) = Some (Inr 128)"
proof -
  obtain r where r: "next_power_of_2 requested = Some (2 ^ r)" "r \<le> 63" "unat requested \<le> 2 ^ r"
      "r = 0 \<or> 2 ^ (r - 1) < unat requested"
    using next_power_of_2_pow[OF assms] by (elim exE conjE) simp
  have u: "unat ((2::size_t) ^ r) = 2 ^ r" by (rule unat_p2[OF r(2)])
  have small: "\<forall>j. unat requested \<le> 2 ^ j \<longrightarrow> (2::nat) ^ r \<le> 2 ^ j"
    using smallest_pow[OF r(4)] by blast
  have outcome: "if 2 ^ r * sizeof_Node \<le> PTRDIFF_MAX \<and> 2 ^ r * sizeof_Node \<le> available
             then \<exists>q. LockFreeQueue sizeof_Node available dflt requested = Some (Inr q) \<and>
                      unat (capacity q) = 2 ^ r
             else \<exists>e. LockFreeQueue sizeof_Node available dflt requested = Some (Inl e)"
  proof (cases "2 ^ r * sizeof_Node \<le> PTRDIFF_MAX \<and> 2 ^ r * sizeof_Node \<le> available")
    case True
    then have "\<exists>q. LockFreeQueue sizeof_Node available dflt requested = Some (Inr q) \<and>
                      unat (capacity q) = 2 ^ r"
      using r(1) u by (simp add: LockFreeQueue_def capacity_def)
    then show ?thesis using True by simp
  next
    case False
    then have "\<exists>e. LockFreeQueue sizeof_Node available dflt requested = Some (Inl e)"
      using r(1) u by (auto simp: LockFreeQueue_def)
    then show ?thesis using False by auto
  qed
  have first: "\<exists>r \<le> 63. unat requested \<le> 2 ^ r \<and>
            (\<forall>j. unat requested \<le> 2 ^ j \<longrightarrow> (2::nat) ^ r \<le> 2 ^ j) \<and>
            (if 2 ^ r * sizeof_Node \<le> PTRDIFF_MAX \<and> 2 ^ r * sizeof_Node \<le> available
             then \<exists>q. LockFreeQueue sizeof_Node available dflt requested = Some (Inr q) \<and>
                      unat (capacity q) = 2 ^ r
             else \<exists>e. LockFreeQueue sizeof_Node available dflt requested = Some (Inl e))"
    using r(2,3) small outcome by (intro exI[of _ r] conjI)
  have ex: "map_option (map_sum id capacity) (LockFreeQueue 16 4096 dflt 0) = Some (Inr 1)"
       "map_option (map_sum id capacity) (LockFreeQueue 16 4096 dflt 1) = Some (Inr 1)"
       "map_option (map_sum id capacity) (LockFreeQueue 16 4096 dflt 5) = Some (Inr 8)"
       "map_option (map_sum id capacity) (LockFreeQueue 16 4096 dflt 100) = Some (Inr 128)"
    by (simp_all add: LockFreeQueue_def capacity_def np2_eval PTRDIFF_MAX_def)
  show ?thesis by (intro conjI first ex capacity_try_push capacity_try_pop)
qed

text \<open>The theorem at the request 5, for nodes of 16 bytes and 4096 bytes to be had.\<close>

theorem capacity_smallest_power_of_two_witness:
  "unat (5::size_t) \<le> 2 ^ 63 \<and>
   (\<exists>r \<le> 63. unat (5::size_t) \<le> 2 ^ r \<and>
            (\<forall>j. unat (5::size_t) \<le> 2 ^ j \<longrightarrow> (2::nat) ^ r \<le> 2 ^ j) \<and>
            (if 2 ^ r * 16 \<le> PTRDIFF_MAX \<and> 2 ^ r * 16 \<le> (4096::nat)
             then \<exists>q. LockFreeQueue 16 4096 (0::int) 5 = Some (Inr q) \<and>
                      unat (capacity q) = 2 ^ r
             else \<exists>e. LockFreeQueue 16 4096 (0::int) 5 = Some (Inl e)))"
proof -
  have h: "unat (5::size_t) \<le> 2 ^ 63" by simp
  show ?thesis by (rule conjI[OF h conjunct1[OF capacity_smallest_power_of_two[OF h]]])
qed

text \<open>
  Claim C8 as stated, for every request: it fails above \<open>2 ^ 63\<close>, where no power of two
  that is large enough fits into \<open>size_t\<close>.  \<open>power <<= 1\<close> wraps to 0 and the loop of
  \<open>next_power_of_2\<close> never ends, so the constructor yields no queue, whatever the memory.
\<close>

theorem capacity_huge_request_counterexample:
  "LockFreeQueue 16 4096 (0::int) (2 ^ 63 + 1) = None"
proof -
  have "next_power_of_2 (2 ^ 63 + 1) = None" by (rule next_power_of_2_diverges) simp
  then show ?thesis by (simp add: LockFreeQueue_def)
qed

text \<open>
  At the request \<open>2 ^ 63\<close> itself the constructor throws: no array of \<open>2 ^ 63\<close> nodes is
  small enough.
\<close>

lemma LockFreeQueue_throws_at_2p63:
  assumes "0 < sizeof_Node"
  shows "LockFreeQueue sizeof_Node available dflt (2 ^ 63) = Some (Inl bad_array_new_length)"
proof -
  have fits: "unat ((2::size_t) ^ 63) \<le> 2 ^ 63" by simp
  obtain r where r: "next_power_of_2 (2 ^ 63) = Some (2 ^ r)" "r \<le> 63"
      "unat ((2::size_t) ^ 63) \<le> 2 ^ r"
    using next_power_of_2_pow[OF fits] by (elim exE conjE) simp
  have "(2::nat) ^ 63 \<le> 2 ^ r" using r(3) by simp
  then have "63 \<le> r" by (rule power_le_imp_le_exp[rotated]) simp
  then have "r = 63" using r(2) by simp
  then have np: "next_power_of_2 (2 ^ 63) = Some (2 ^ 63)" using r(1) by simp
  have "(2::nat) ^ 63 * sizeof_Node \<ge> 2 ^ 63" using assms by simp
  then have "PTRDIFF_MAX < unat ((2::size_t) ^ 63) * sizeof_Node"
    by (simp add: PTRDIFF_MAX_def)
  then show ?thesis using np by (simp add: LockFreeQueue_def)
qed

lemma LockFreeQueue_fresh:
  assumes "LockFreeQueue sizeof_Node available dflt requested = Some (Inr q)"
  shows "\<exists>r. r \<le> 63 \<and> capacity_' q = 2 ^ r \<and> mask_' q = 2 ^ r - 1 \<and> length (buffer_' q) = 2 ^ r \<and>
           head_' q = 0 \<and> tail_' q = 0 \<and> (\<forall>i < 2 ^ r. sequence (buffer_' q ! i) = of_nat i)"
proof -
  obtain c where c: "next_power_of_2 requested = Some c"
    using assms by (auto simp: LockFreeQueue_def split: option.splits)
  then obtain r where r: "c = 2 ^ r" "r \<le> 63" using next_power_of_2_Some[of requested c] by auto
  have "q = \<lparr> buffer_' = map (\<lambda>i. \<lparr> node_data = dflt, sequence = of_nat i \<rparr>) [0..<unat c],
              capacity_' = c, mask_' = c - 1, head_' = 0, tail_' = 0 \<rparr>"
    using assms c by (simp add: LockFreeQueue_def split: if_splits)
  then show ?thesis using r by (intro exI[of _ r]) (simp add: unat_p2)
qed

text \<open>
  What claim C7 describes holds in every run in which no weak compare-exchange fails
  spuriously.  On a freshly constructed queue, \<open>N\<close> calls of \<open>try_push\<close> followed by
  \<open>N\<close> calls of \<open>try_pop\<close>, with \<open>N\<close> at most the capacity: every push returns true,
  every pop returns true, and the values come out in the order in which they went in.
\<close>

theorem fifo_without_spurious_failure:
  assumes "LockFreeQueue sizeof_Node available dflt requested = Some (Inr q)"
    and "length vs \<le> unat (capacity q)"
  shows "fst (push_all (map (Pair False) vs) q) = replicate (length vs) True \<and>
         fst (pop_all (replicate (length vs) False) (snd (push_all (map (Pair False) vs) q))) = map Some vs"
proof -
  obtain r where r: "r \<le> 63" "capacity_' q = 2 ^ r" "mask_' q = 2 ^ r - 1" "length (buffer_' q) = 2 ^ r"
      "head_' q = 0" "tail_' q = 0" "\<forall>i < 2 ^ r. sequence (buffer_' q ! i) = of_nat i"
    using LockFreeQueue_fresh[OF assms(1)] by (elim exE conjE) simp
  have len: "length vs \<le> 2 ^ r" using assms(2) r(1,2) by (simp add: capacity_def unat_p2)
  have "\<exists>q'. push_all (map (Pair False) vs) q = (replicate (length vs) True, q') \<and>
           capacity_' q' = 2 ^ r \<and> mask_' q' = 2 ^ r - 1 \<and> length (buffer_' q') = 2 ^ r \<and>
           head_' q' = of_nat (0 + length vs) \<and> tail_' q' = 0 \<and>
           (\<forall>i < length vs. buffer_' q' ! (0 + i) = \<lparr> node_data = vs ! i, sequence = of_nat (Suc (0 + i)) \<rparr>) \<and>
           (\<forall>i < 0. buffer_' q' ! i = buffer_' q ! i)"
    using r len by (intro push_all_ok) auto
  then obtain q' where q': "push_all (map (Pair False) vs) q = (replicate (length vs) True, q')"
      "capacity_' q' = 2 ^ r" "mask_' q' = 2 ^ r - 1" "length (buffer_' q') = 2 ^ r"
      "head_' q' = of_nat (length vs)" "tail_' q' = 0"
      "\<forall>i < length vs. buffer_' q' ! i = \<lparr> node_data = vs ! i, sequence = of_nat (Suc i) \<rparr>"
    by auto
  have "fst (pop_all (replicate (length vs) False) q') = map Some (take (length vs) (drop 0 vs))"
    using q' r(1) len by (intro pop_all_ok[where r = r and n = "length vs"]) auto
  then show ?thesis using q'(1) by simp
qed

text \<open>
  The theorem on a queue of capacity 2 (nodes of 16 bytes, 4096 bytes to be had) and the
  values 7, 9.
\<close>

theorem fifo_without_spurious_failure_witness:
  "LockFreeQueue 16 4096 (0::int) 2 =
     Some (Inr \<lparr> buffer_' = [\<lparr> node_data = 0, sequence = 0 \<rparr>, \<lparr> node_data = 0, sequence = 1 \<rparr>],
            capacity_' = 2, mask_' = 1, head_' = 0, tail_' = 0 \<rparr>) \<and>
   length [7, 9 :: int] \<le>
     unat (capacity \<lparr> buffer_' = [\<lparr> node_data = 0::int, sequence = 0 \<rparr>, \<lparr> node_data = 0, sequence = 1 \<rparr>],
            capacity_' = 2, mask_' = 1, head_' = 0, tail_' = 0 \<rparr>) \<and>
   fst (push_all [(False, 7), (False, 9)]
          \<lparr> buffer_' = [\<lparr> node_data = 0::int, sequence = 0 \<rparr>, \<lparr> node_data = 0, sequence = 1 \<rparr>],
            capacity_' = 2, mask_' = 1, head_' = 0, tail_' = 0 \<rparr>) = [True, True] \<and>
   fst (pop_all [False, False]
         (snd (push_all [(False, 7), (False, 9)]
          \<lparr> buffer_' = [\<lparr> node_data = 0::int, sequence = 0 \<rparr>, \<lparr> node_data = 0, sequence = 1 \<rparr>],
            capacity_' = 2, mask_' = 1, head_' = 0, tail_' = 0 \<rparr>))) = [Some 7, Some 9]"
proof -
  let ?Q = "\<lparr> buffer_' = [\<lparr> node_data = 0::int, sequence = 0 \<rparr>, \<lparr> node_data = 0, sequence = 1 \<rparr>],
            capacity_' = 2, mask_' = 1, head_' = 0, tail_' = 0 \<rparr>"
  have h1: "LockFreeQueue 16 4096 (0::int) 2 = Some (Inr ?Q)"
    by (simp add: LockFreeQueue_def np2_eval upt_conv_Cons PTRDIFF_MAX_def)
  have h2: "length [7, 9 :: int] \<le> unat (capacity ?Q)"
    by (simp add: capacity_def)
  show ?thesis
    using h1 h2 fifo_without_spurious_failure[OF h1 h2] by (simp add: numeral_2_eq_2)
qed

text \<open>
  Claim C7: every push and every pop of such a run succeeds.  The code does not ensure
  it.  On an empty queue of capacity 1, \<open>try_push\<close> returns false when its
  \<open>compare_exchange_weak\<close> fails spuriously, and after a push that succeeded \<open>try_pop\<close>
  returns false when its exchange does: neither call retries the exchange.
\<close>

theorem try_push_try_pop_fail_on_spurious_cas:
  "LockFreeQueue 16 4096 (0::int) 1 =
     Some (Inr \<lparr> buffer_' = [\<lparr> node_data = 0, sequence = 0 \<rparr>],
            capacity_' = 1, mask_' = 0, head_' = 0, tail_' = 0 \<rparr>) \<and>
   length [42::int] \<le> unat (capacity \<lparr> buffer_' = [\<lparr> node_data = 0::int, sequence = 0 \<rparr>],
            capacity_' = 1, mask_' = 0, head_' = 0, tail_' = 0 \<rparr>) \<and>
   fst (push_all [(True, 42)] \<lparr> buffer_' = [\<lparr> node_data = 0::int, sequence = 0 \<rparr>],
            capacity_' = 1, mask_' = 0, head_' = 0, tail_' = 0 \<rparr>) = [False] \<and>
   fst (push_all [(False, 42)] \<lparr> buffer_' = [\<lparr> node_data = 0::int, sequence = 0 \<rparr>],
            capacity_' = 1, mask_' = 0, head_' = 0, tail_' = 0 \<rparr>) = [True] \<and>
   fst (pop_all [True] (snd (push_all [(False, 42)]
          \<lparr> buffer_' = [\<lparr> node_data = 0::int, sequence = 0 \<rparr>],
            capacity_' = 1, mask_' = 0, head_' = 0, tail_' = 0 \<rparr>))) = [None]"
  by (simp add: LockFreeQueue_def np2_eval upt_conv_Cons capacity_def try_push_def try_pop_def
        compare_exchange_weak_def PTRDIFF_MAX_def)

section \<open>Proofs: MemoryPool\<close>

lemma expand_pool_loop_numeral:
  "expand_pool_loop (numeral k) chunk_ptr s =
     expand_pool_loop (pred_numeral k) (chunk_ptr + unat (block_size_' s))
       (s\<lparr> block_next := (block_next s)(chunk_ptr := free_list_' s), free_list_' := chunk_ptr \<rparr>)"
  by (simp add: numeral_eq_Suc)

lemma free_list_walk_numeral:
  "free_list_walk (numeral k) next_of current =
     (if current = 0 then [] else current # free_list_walk (pred_numeral k) next_of (next_of current))"
  by (simp add: numeral_eq_Suc)

lemma expand_pool_loop_1:
  "expand_pool_loop 1 chunk_ptr s =
     s\<lparr> block_next := (block_next s)(chunk_ptr := free_list_' s), free_list_' := chunk_ptr \<rparr>"
  by simp

lemma test_pool_constructed: "MemoryPool 4 5 (Some 4096) = Inr test_pool"
  by (simp add: MemoryPool_def sizeof_Block_def alignof_Block_def expand_pool_def PTRDIFF_MAX_def
        expand_pool_loop_numeral expand_pool_loop_1 test_pool_def Let_def)

lemma grown_pool_run:
  "allocations [None, None, None, None, None, Some 8192] test_pool = Inr grown_pool"
  by (simp add: allocate_def expand_pool_def PTRDIFF_MAX_def expand_pool_loop_numeral
        expand_pool_loop_1 offsetof_Block_data_def test_pool_def grown_pool_def Let_def)

lemma expand_pool_loop_frame:
  "block_size_' (expand_pool_loop n p s) = block_size_' s \<and>
   chunks_' (expand_pool_loop n p s) = chunks_' s \<and>
   total_blocks_' (expand_pool_loop n p s) = total_blocks_' s"
  by (induction n p s rule: expand_pool_loop.induct) simp_all

lemma is_valid_pointer_loop_iff:
  "is_valid_pointer_loop cs s ptr \<longleftrightarrow>
     (\<exists>ch \<in> set cs. fst ch \<le> ptr \<and> ptr < fst ch + unat (total_blocks_' s * block_size_' s) \<and>
        unat ((of_nat (ptr - fst ch) :: size_t) mod block_size_' s) = offsetof_Block_data)"
  by (induction cs) (auto simp: Let_def)

text \<open>
  In a pool that has not grown there is at most one chunk, and the end that
  \<open>is_valid_pointer\<close> computes for it is its end.
\<close>

lemma never_grown_chunks:
  "never_grown s \<Longrightarrow>
   length (chunks_' s) \<le> 1 \<and>
   (\<forall>ch \<in> set (chunks_' s). snd ch = unat (total_blocks_' s * block_size_' s))"
proof (induction rule: never_grown.induct)
  case (constructed block_size initial_blocks new_chunk s)
  then show ?case
    by (auto simp: MemoryPool_def expand_pool_def expand_pool_loop_frame Let_def mult.commute
             split: if_splits option.splits)
next
  case (allocated s new_chunk ptr s1)
  from allocated(2,3) have "chunks_' s1 = chunks_' s \<and> total_blocks_' s1 = total_blocks_' s \<and>
      block_size_' s1 = block_size_' s"
    by (auto simp: allocate_def Let_def)
  with allocated.IH show ?case by simp
next
  case (deallocated s ptr)
  then show ?case by (simp add: deallocate_def Let_def)
qed

lemma offset_in_chunk:
  assumes "off < unat (w :: size_t)"
  shows "unat ((of_nat off :: size_t) mod b) = off mod unat b"
proof -
  have "unat w < 2 ^ 64" using unsigned_less[of w] by simp
  then have "off < 2 ^ 64" using assms by linarith
  then have "unat (of_nat off :: size_t) = off" by (simp add: unat_of_nat)
  then show ?thesis by (simp add: unat_mod)
qed

text \<open>What \<open>is_valid_pointer\<close> accepts, in natural numbers.\<close>

lemma is_valid_pointer_nat:
  assumes "is_valid_pointer s ptr"
  shows "ptr \<noteq> 0 \<and>
         (\<exists>ch \<in> set (chunks_' s). fst ch \<le> ptr \<and>
            ptr < fst ch + unat (total_blocks_' s * block_size_' s) \<and>
            (ptr - fst ch) mod unat (block_size_' s) = offsetof_Block_data)"
proof -
  from assms have nz: "ptr \<noteq> 0" and "is_valid_pointer_loop (chunks_' s) s ptr"
    by (simp_all add: is_valid_pointer_def split: if_splits)
  then obtain ch where ch: "ch \<in> set (chunks_' s)" "fst ch \<le> ptr"
      "ptr < fst ch + unat (total_blocks_' s * block_size_' s)"
      "unat ((of_nat (ptr - fst ch) :: size_t) mod block_size_' s) = offsetof_Block_data"
    using is_valid_pointer_loop_iff[of "chunks_' s" s ptr] by blast
  have inside: "ptr - fst ch < unat (total_blocks_' s * block_size_' s)"
    using ch(2,3) by simp
  have "(ptr - fst ch) mod unat (block_size_' s) = offsetof_Block_data"
    using ch(4) offset_in_chunk[OF inside, of "block_size_' s"] by simp
  then show ?thesis using nz ch(1,2,3) by blast
qed

text \<open>
  The blocks on the free list of a pool that has not grown start at multiples of the block
  size after the start of its chunk.
\<close>

lemma expand_pool_loop_aligned:
  assumes "c0 \<le> p" and "(p - c0) mod unat (block_size_' s) = 0"
    and "aligned_to c0 (unat (block_size_' s)) (free_list_' s)"
    and "\<forall>a. aligned_to c0 (unat (block_size_' s)) (block_next s a)"
  shows "aligned_to c0 (unat (block_size_' s)) (free_list_' (expand_pool_loop n p s)) \<and>
         (\<forall>a. aligned_to c0 (unat (block_size_' s)) (block_next (expand_pool_loop n p s) a))"
  using assms
proof (induction n p s rule: expand_pool_loop.induct)
  case (1 chunk_ptr s)
  then show ?case by simp
next
  case (2 n chunk_ptr s)
  let ?b = "unat (block_size_' s)"
  let ?s1 = "s\<lparr> block_next := (block_next s)(chunk_ptr := free_list_' s), free_list_' := chunk_ptr \<rparr>"
  have b1: "block_size_' ?s1 = block_size_' s" by simp
  have p1: "c0 \<le> chunk_ptr + ?b" using "2.prems"(1) by simp
  have "(chunk_ptr + ?b - c0) = (chunk_ptr - c0) + ?b" using "2.prems"(1) by simp
  then have p2: "(chunk_ptr + ?b - c0) mod ?b = 0" using "2.prems"(2) by simp
  have f1: "aligned_to c0 ?b (free_list_' ?s1)"
    using "2.prems"(1,2) by (simp add: aligned_to_def)
  have n1: "\<forall>a. aligned_to c0 ?b (block_next ?s1 a)"
    using "2.prems"(3,4) by simp
  have "aligned_to c0 (unat (block_size_' ?s1))
          (free_list_' (expand_pool_loop n (chunk_ptr + unat (block_size_' s)) ?s1)) \<and>
        (\<forall>a. aligned_to c0 (unat (block_size_' ?s1))
          (block_next (expand_pool_loop n (chunk_ptr + unat (block_size_' s)) ?s1) a))"
    by (rule "2.IH") (use p1 p2 f1 n1 b1 in simp_all)
  then show ?case by simp
qed

lemma expand_pool_block_start:
  assumes "expand_pool num_blocks new_chunk s = Inr s1" and "chunks_' s = []"
    and "free_list_' s = 0" and "\<forall>a. block_next s a = 0"
  shows "block_start s1 (free_list_' s1) \<and> (\<forall>a. block_start s1 (block_next s1 a))"
proof -
  from assms(1) obtain chunk where c: "new_chunk = Some chunk"
      and s1: "s1 = (expand_pool_loop (unat num_blocks) chunk s)
                  \<lparr> chunks_' := chunks_' (expand_pool_loop (unat num_blocks) chunk s) @
                                 [(chunk, unat (block_size_' s * num_blocks))],
                    total_blocks_' := total_blocks_' (expand_pool_loop (unat num_blocks) chunk s) +
                                      num_blocks \<rparr>"
    by (auto simp: expand_pool_def Let_def split: if_splits option.splits)
  have "aligned_to chunk (unat (block_size_' s))
           (free_list_' (expand_pool_loop (unat num_blocks) chunk s)) \<and>
         (\<forall>a. aligned_to chunk (unat (block_size_' s))
           (block_next (expand_pool_loop (unat num_blocks) chunk s) a))"
    by (rule expand_pool_loop_aligned) (use assms(3,4) in \<open>simp_all add: aligned_to_def\<close>)
  then show ?thesis
    using assms(2) by (simp add: s1 block_start_def expand_pool_loop_frame)
qed

lemma mod_minus_remainder:
  assumes "(x::nat) mod b = r"
  shows "r \<le> x \<and> (x - r) mod b = 0"
proof -
  have "x - x mod b = b * (x div b)" by (rule minus_mod_eq_mult_div)
  then have "(x - r) mod b = 0" using assms by simp
  moreover have "x mod b \<le> x" by (rule mod_less_eq_dividend)
  ultimately show ?thesis using assms by simp
qed

lemma never_grown_block_start:
  "never_grown s \<Longrightarrow>
   block_start s (free_list_' s) \<and> (\<forall>a. block_start s (block_next s a))"
proof (induction rule: never_grown.induct)
  case (constructed block_size initial_blocks new_chunk s)
  show ?case
  proof (cases "initial_blocks > 0")
    case False
    then show ?thesis
      using constructed by (auto simp: MemoryPool_def Let_def block_start_def split: if_splits)
  next
    case True
    then obtain s0 where s0: "expand_pool initial_blocks new_chunk s0 = Inr s"
        "chunks_' s0 = []" "free_list_' s0 = 0" "\<forall>a. block_next s0 a = 0"
      using constructed by (auto simp: MemoryPool_def Let_def split: if_splits)
    show ?thesis by (rule expand_pool_block_start[OF s0])
  qed
next
  case (allocated s new_chunk ptr s1)
  from allocated(2,3) have s1: "s1 = s\<lparr> free_list_' := block_next s (free_list_' s),
                                         allocated_blocks_' := allocated_blocks_' s + 1 \<rparr>"
    by (auto simp: allocate_def Let_def)
  show ?case using allocated.IH by (simp add: s1 block_start_def)
next
  case (deallocated s ptr)
  show ?case
  proof (cases "ptr \<noteq> 0 \<and> is_valid_pointer s ptr")
    case False
    then have "deallocate ptr s = s" by (auto simp: deallocate_def)
    then show ?thesis using deallocated.IH by simp
  next
    case True
    then obtain ch where ch: "ch \<in> set (chunks_' s)" "fst ch \<le> ptr"
        "(ptr - fst ch) mod unat (block_size_' s) = offsetof_Block_data"
      using is_valid_pointer_nat[of s ptr] by blast
    have m: "offsetof_Block_data \<le> ptr - fst ch \<and>
             (ptr - fst ch - offsetof_Block_data) mod unat (block_size_' s) = 0"
      by (rule mod_minus_remainder[OF ch(3)])
    have e: "ptr - offsetof_Block_data - fst ch = ptr - fst ch - offsetof_Block_data" by simp
    have le: "fst ch \<le> ptr - offsetof_Block_data" using m ch(2) by linarith
    have "aligned_to (fst ch) (unat (block_size_' s)) (ptr - offsetof_Block_data)"
      unfolding aligned_to_def e using m le by blast
    then have blk: "block_start s (ptr - offsetof_Block_data)"
      using ch(1) by (auto simp: block_start_def list_ex_iff)
    have d: "deallocate ptr s =
               s\<lparr> block_next := (block_next s)(ptr - offsetof_Block_data := free_list_' s),
                  free_list_' := ptr - offsetof_Block_data,
                  allocated_blocks_' := allocated_blocks_' s - 1 \<rparr>"
      using True by (simp add: deallocate_def Let_def)
    show ?thesis using deallocated.IH blk by (simp add: d block_start_def)
  qed
qed

lemma free_list_walk_block_start:
  assumes "\<forall>a. block_start s (next_of a)"
  shows "block_start s a \<Longrightarrow> x \<in> set (free_list_walk n next_of a) \<Longrightarrow> x \<noteq> 0 \<and> block_start s x"
proof (induction n arbitrary: a)
  case 0
  then show ?case by simp
next
  case (Suc n)
  show ?case
  proof (cases "x = a")
    case True
    then show ?thesis using Suc.prems by (auto split: if_splits)
  next
    case False
    then have "x \<in> set (free_list_walk n next_of (next_of a))"
      using Suc.prems(2) by (auto split: if_splits)
    moreover have "block_start s (next_of a)" using assms by simp
    ultimately show ?thesis using Suc.IH by blast
  qed
qed

text \<open>
  Claim C3, as amended.  In a pool that has not grown since its construction,
  \<open>deallocate(p)\<close> changes nothing (not the pool object, so neither \<open>allocated_blocks()\<close>
  nor the head of the free list, and not the \<open>next\<close> fields) when \<open>p\<close> is null, or is
  the address of a block on the free list (the address of the block, where its \<open>next\<close>
  field is, not of its payload), or lies outside the chunk of the pool, or lies in it at
  an offset from its start that is not \<open>offsetof(Block, data)\<close> modulo the padded block
  size.  A null pointer changes nothing in any pool.
\<close>

theorem deallocate_rejected_pointer:
  assumes "never_grown s"
    and "ptr = 0 \<or> ptr \<in> set (free_list_blocks n s) \<or>
         (\<forall>ch \<in> set (chunks_' s).
            ptr < fst ch \<or> fst ch + snd ch \<le> ptr \<or>
            (ptr - fst ch) mod unat (block_size_' s) \<noteq> offsetof_Block_data)"
  shows "deallocate ptr s = s \<and>
         allocated_blocks (deallocate ptr s) = allocated_blocks s \<and>
         free_list_' (deallocate ptr s) = free_list_' s \<and>
         block_next (deallocate ptr s) = block_next s \<and>
         deallocate 0 s2 = s2"
proof -
  have chunks: "length (chunks_' s) \<le> 1"
      "\<forall>ch \<in> set (chunks_' s). snd ch = unat (total_blocks_' s * block_size_' s)"
    using never_grown_chunks[OF assms(1)] by simp_all
  have starts: "block_start s (free_list_' s)" "\<forall>a. block_start s (block_next s a)"
    using never_grown_block_start[OF assms(1)] by simp_all
  have "ptr = 0 \<or> \<not> is_valid_pointer s ptr"
  proof (rule ccontr)
    assume "\<not> (ptr = 0 \<or> \<not> is_valid_pointer s ptr)"
    then have nz: "ptr \<noteq> 0" and v: "is_valid_pointer s ptr" by simp_all
    obtain ch where ch: "ch \<in> set (chunks_' s)" "fst ch \<le> ptr"
        "ptr < fst ch + unat (total_blocks_' s * block_size_' s)"
        "(ptr - fst ch) mod unat (block_size_' s) = offsetof_Block_data"
      using is_valid_pointer_nat[OF v] by blast
    have only: "chunks_' s = [ch]"
      using chunks(1) ch(1) by (cases "chunks_' s") auto
    have len: "snd ch = unat (total_blocks_' s * block_size_' s)" using chunks(2) ch(1) by blast
    from assms(2) nz consider (free) "ptr \<in> set (free_list_blocks n s)"
      | (out) "\<forall>ch \<in> set (chunks_' s).
            ptr < fst ch \<or> fst ch + snd ch \<le> ptr \<or>
            (ptr - fst ch) mod unat (block_size_' s) \<noteq> offsetof_Block_data"
      by blast
    then show False
    proof cases
      case free
      then have "block_start s ptr"
        using free_list_walk_block_start[OF starts(2) starts(1), of ptr n]
        by (simp add: free_list_blocks_def)
      then have "(ptr - fst ch) mod unat (block_size_' s) = 0"
        using nz by (simp add: block_start_def only aligned_to_def)
      then show False using ch(4) by (simp add: offsetof_Block_data_def)
    next
      case out
      then have "ptr < fst ch \<or> fst ch + snd ch \<le> ptr \<or>
            (ptr - fst ch) mod unat (block_size_' s) \<noteq> offsetof_Block_data"
        using ch(1) by blast
      then show False using ch(2,3,4) len by simp
    qed
  qed
  then have "deallocate ptr s = s" by (auto simp: deallocate_def)
  moreover have "deallocate 0 s2 = s2" by (simp add: deallocate_def)
  ultimately show ?thesis by simp
qed

text \<open>
  The theorem on the sample pool, at 4096: the address of its first block, which is the
  last block of the free list.
\<close>

theorem deallocate_rejected_pointer_witness:
  "never_grown test_pool \<and>
   free_list_blocks 5 test_pool = [4192, 4168, 4144, 4120, 4096] \<and>
   deallocate 4096 test_pool = test_pool \<and>
   allocated_blocks (deallocate 4096 test_pool) = allocated_blocks test_pool \<and>
   free_list_' (deallocate 4096 test_pool) = free_list_' test_pool"
proof -
  have h0: "never_grown test_pool" by (rule never_grown.constructed[OF test_pool_constructed])
  have fl: "free_list_blocks 5 test_pool = [4192, 4168, 4144, 4120, 4096]"
    by (simp add: free_list_blocks_def test_pool_def free_list_walk_numeral)
  have h1: "(4096::nat) = 0 \<or> 4096 \<in> set (free_list_blocks 5 test_pool) \<or>
         (\<forall>ch \<in> set (chunks_' test_pool).
            4096 < fst ch \<or> fst ch + snd ch \<le> 4096 \<or>
            (4096 - fst ch) mod unat (block_size_' test_pool) \<noteq> offsetof_Block_data)"
    by (simp add: fl)
  show ?thesis using h0 fl deallocate_rejected_pointer[OF h0 h1] by simp
qed

text \<open>
  Claim C3 as stated, for every pointer that \<open>allocate()\<close> never returned: the sample pool
  is fresh from its constructor, no block of it has been allocated, and 4104 is the
  payload address of its first block, which is on the free list.  The pointer passes
  \<open>is_valid_pointer\<close>; \<open>deallocate\<close> pushes the block once more (the list now runs
  from 4096 over 4192 back to 4096) and the counter wraps from 0 to \<open>2 ^ 64 - 1\<close>.
\<close>

theorem deallocate_free_block_counterexample:
  "MemoryPool 4 5 (Some 4096) = Inr test_pool \<and>
   allocated_blocks test_pool = 0 \<and>
   free_list_' test_pool = 4192 \<and>
   is_valid_pointer test_pool 4104 \<and>
   allocated_blocks (deallocate 4104 test_pool) = 18446744073709551615 \<and>
   free_list_' (deallocate 4104 test_pool) = 4096 \<and>
   block_next (deallocate 4104 test_pool) 4096 = 4192"
proof -
  have v: "is_valid_pointer test_pool 4104"
    by (simp add: is_valid_pointer_def test_pool_def offsetof_Block_data_def)
  show ?thesis
    using test_pool_constructed v
    by (simp add: deallocate_def allocated_blocks_def offsetof_Block_data_def test_pool_def)
qed

text \<open>
  A pool that has grown is outside the theorem.  There \<open>is_valid_pointer\<close> takes
  \<open>total_blocks_\<close>, the blocks of all chunks, for the length of every chunk, and so
  accepts addresses that lie in no chunk: in the grown sample pool the chunks are the
  bytes from 4096 to 4215 and from 8192 to 8239, and the address 4224 is accepted as a
  block of the first chunk.  \<open>deallocate\<close> then counts one allocated block less and puts
  the address 4216, which is not in the pool, at the head of the free list.
\<close>

lemma is_valid_pointer_accepts_unowned_address:
  "allocations [None, None, None, None, None, Some 8192] test_pool = Inr grown_pool \<and>
   chunks_' grown_pool = [(4096, 120), (8192, 48)] \<and>
   is_valid_pointer grown_pool 4224 \<and>
   allocated_blocks grown_pool = 6 \<and>
   allocated_blocks (deallocate 4224 grown_pool) = 5 \<and>
   free_list_' (deallocate 4224 grown_pool) = 4216"
proof -
  have v: "is_valid_pointer grown_pool 4224"
    by (simp add: is_valid_pointer_def grown_pool_def offsetof_Block_data_def)
  show ?thesis
    using grown_pool_run v
    by (simp add: deallocate_def allocated_blocks_def offsetof_Block_data_def grown_pool_def)
qed

section \<open>Proofs: ThreadPool\<close>

lemma join_workers_stopped:
  assumes "stop_' s"
  shows "join_workers s =
           Some (s\<lparr> tasks_' := [],
                    completed_tasks_' := completed_tasks_' s + of_nat (length (tasks_' s)) \<rparr>)"
  using assms
proof (induction "tasks_' s" arbitrary: s)
  case Nil
  then have "worker_function_pass s = None" by (simp add: worker_function_pass_def)
  then have "join_workers s = Some s" by (subst join_workers.simps) simp
  moreover have "s\<lparr> tasks_' := [], completed_tasks_' := completed_tasks_' s + of_nat (length (tasks_' s)) \<rparr> = s"
    using Nil(1)[symmetric] by simp
  ultimately show ?case by simp
next
  case (Cons task rest)
  let ?s1 = "s\<lparr> tasks_' := rest, completed_tasks_' := completed_tasks_' s + 1 \<rparr>"
  have pass: "worker_function_pass s = Some ?s1"
    using Cons(2)[symmetric] by (simp add: worker_function_pass_def)
  have "join_workers s = join_workers ?s1"
    by (subst join_workers.simps) (simp add: pass)
  also have "\<dots> = Some (?s1\<lparr> tasks_' := [],
                    completed_tasks_' := completed_tasks_' ?s1 + of_nat (length (tasks_' ?s1)) \<rparr>)"
    using Cons(3) by (intro Cons(1)) simp_all
  finally show ?case using Cons(2)[symmetric] by (simp add: add.assoc add.commute)
qed

lemma shutdown_result:
  "shutdown s =
     Some (if workers_' s = 0 then s\<lparr> stop_' := True \<rparr>
           else s\<lparr> stop_' := True, tasks_' := [],
                   completed_tasks_' := completed_tasks_' s + of_nat (length (tasks_' s)),
                   workers_' := 0 \<rparr>)"
  by (simp add: shutdown_def Let_def join_workers_stopped)

lemma shutdown_stopped:
  "stop_' s \<Longrightarrow> workers_' s = 0 \<Longrightarrow> shutdown s = Some s"
  by (simp add: shutdown_result)

lemma run_calls_stopped:
  "stop_' s \<Longrightarrow> workers_' s = 0 \<Longrightarrow> run_calls calls s = Some s"
proof (induction calls)
  case Nil
  then show ?case by simp
next
  case (Cons c calls)
  then show ?case by (cases c) (simp_all add: submit_def shutdown_stopped)
qed

text \<open>
  Claim C9.  \<open>shutdown()\<close> returns, and on the pool it leaves: \<open>stop_\<close> is set; every
  \<open>submit\<close> throws \<open>std::runtime_error\<close> (the pool, and so its task queue, is as
  before the call); this stays so after any further calls of \<open>submit\<close> and
  \<open>shutdown\<close>, which leave the pool as it is; and a second \<open>shutdown()\<close> changes
  nothing.
\<close>

theorem submit_after_shutdown_fails:
  "\<exists>s1. shutdown s = Some s1 \<and> stop_' s1 \<and>
         run_calls calls s1 = Some s1 \<and>
         submit task s1 = Inl (runtime_error ''submit on stopped ThreadPool'') \<and>
         shutdown s1 = Some s1"
proof -
  let ?s1 = "if workers_' s = 0 then s\<lparr> stop_' := True \<rparr>
           else s\<lparr> stop_' := True, tasks_' := [],
                   completed_tasks_' := completed_tasks_' s + of_nat (length (tasks_' s)),
                   workers_' := 0 \<rparr>"
  have s1: "shutdown s = Some ?s1" by (rule shutdown_result)
  have st: "stop_' ?s1" "workers_' ?s1 = 0" by simp_all
  have "run_calls calls ?s1 = Some ?s1" by (rule run_calls_stopped[OF st])
  moreover have "submit task ?s1 = Inl (runtime_error ''submit on stopped ThreadPool'')"
    using st(1) by (simp add: submit_def)
  moreover have "shutdown ?s1 = Some ?s1" by (rule shutdown_stopped[OF st])
  ultimately show ?thesis using s1 st(1) by blast
qed

section \<open>Proofs: CacheManager\<close>

lemma find_erase: "find k (erase key m) = (if k = key then None else find k m)"
  by (induction m) (auto simp: find_def erase_def)

lemma keys_erase: "map fst (erase key m) = removeAll key (map fst m)"
  by (induction m) (auto simp: erase_def)

lemma find_assign: "find k (assign key v m) = (if k = key then Some v else find k m)"
  by (induction m) (auto simp: find_def)

lemma keys_assign: "set (map fst (assign key v m)) = insert key (set (map fst m))"
  by (induction m) auto

lemma distinct_assign: "distinct (map fst m) \<Longrightarrow> distinct (map fst (assign key v m))"
  by (induction m) (auto simp: keys_assign[simplified])

lemma distinct_erase: "distinct (map fst m) \<Longrightarrow> distinct (map fst (erase key m))"
  by (simp add: keys_erase distinct_removeAll)

lemma find_None_iff: "find key m = None \<longleftrightarrow> key \<notin> set (map fst m)"
  by (simp add: find_def map_of_eq_None_iff)

lemma erase_absent: "find key m = None \<Longrightarrow> erase key m = m"
  by (induction m) (auto simp: find_def erase_def split: if_splits)

lemma sum_erase:
  "distinct (map fst m) \<Longrightarrow> find key m = Some e \<Longrightarrow>
   sum_size_bytes (erase key m) = sum_size_bytes m - size_bytes e"
proof (induction m)
  case Nil
  then show ?case by (simp add: find_def)
next
  case (Cons kv m)
  show ?case
  proof (cases "fst kv = key")
    case True
    then have "find key m = None" using Cons.prems(1) by (auto simp: find_None_iff)
    then have "erase key m = m" by (rule erase_absent)
    moreover have "snd kv = e" using True Cons.prems(2) by (cases kv) (simp add: find_def)
    ultimately show ?thesis using True by (simp add: erase_def sum_size_bytes_def)
  next
    case False
    then have "find key m = Some e" using Cons.prems(2) by (cases kv) (simp add: find_def)
    then have "sum_size_bytes (erase key m) = sum_size_bytes m - size_bytes e"
      using Cons.prems(1) by (intro Cons.IH) simp
    then show ?thesis using False by (simp add: erase_def sum_size_bytes_def)
  qed
qed

lemma length_erase:
  "distinct (map fst m) \<Longrightarrow> find key m = Some e \<Longrightarrow> Suc (length (erase key m)) = length m"
proof (induction m)
  case Nil
  then show ?case by (simp add: find_def)
next
  case (Cons kv m)
  show ?case
  proof (cases "fst kv = key")
    case True
    then have "find key m = None" using Cons.prems(1) by (auto simp: find_None_iff)
    then have "erase key m = m" by (rule erase_absent)
    then show ?thesis using True by (simp add: erase_def)
  next
    case False
    then have "find key m = Some e" using Cons.prems(2) by (cases kv) (simp add: find_def)
    then have "Suc (length (erase key m)) = length m"
      using Cons.prems(1) by (intro Cons.IH) simp
    then show ?thesis using False by (simp add: erase_def)
  qed
qed

lemma sum_assign_new:
  "find key m = None \<Longrightarrow> sum_size_bytes (assign key v m) = sum_size_bytes m + size_bytes v"
  by (induction m) (auto simp: find_def sum_size_bytes_def split: if_splits)

lemma sum_assign_old:
  "find key m = Some e \<Longrightarrow>
   sum_size_bytes (assign key v m) = sum_size_bytes m - size_bytes e + size_bytes v"
  by (induction m) (auto simp: find_def sum_size_bytes_def split: if_splits)

lemma inv_lru_nonempty:
  "recency_invariant s \<Longrightarrow> cache_' s \<noteq> [] \<Longrightarrow> lru_list_' s \<noteq> []"
  by (auto simp: recency_invariant_def)

lemma inv_last_cached:
  assumes "recency_invariant s" "lru_list_' s \<noteq> []"
  shows "\<exists>e. find (last (lru_list_' s)) (cache_' s) = Some e"
proof -
  have "last (lru_list_' s) \<in> set (map fst (cache_' s))"
    using assms last_in_set[of "lru_list_' s"] by (simp add: recency_invariant_def)
  then have "find (last (lru_list_' s)) (cache_' s) \<noteq> None" by (simp add: find_None_iff)
  then show ?thesis by auto
qed

lemma evict_lru_item_cached:
  assumes "lru_list_' s \<noteq> []" "find (last (lru_list_' s)) (cache_' s) = Some e"
  shows "evict_lru_item s =
           s\<lparr> lru_list_' := butlast (lru_list_' s),
              current_memory_bytes_' := current_memory_bytes_' s - size_bytes e,
              cache_' := erase (last (lru_list_' s)) (cache_' s) \<rparr>"
  using assms by (simp add: evict_lru_item_def Let_def)

lemma set_butlast_distinct:
  assumes "distinct xs" "xs \<noteq> []"
  shows "set (butlast xs) = set xs - {last xs}"
proof -
  have split: "butlast xs @ [last xs] = xs" using assms(2) by (rule append_butlast_last_id)
  then have "distinct (butlast xs @ [last xs])" using assms(1) by simp
  then have notin: "last xs \<notin> set (butlast xs)" by simp
  have "set xs = set (butlast xs @ [last xs])" using split by simp
  then have "set xs = insert (last xs) (set (butlast xs))" by simp
  then show ?thesis using notin by blast
qed

lemma evict_recency:
  assumes "recency_invariant s"
  shows "recency_invariant (evict_lru_item s)"
proof (cases "lru_list_' s = []")
  case True
  then show ?thesis using assms by (simp add: evict_lru_item_def)
next
  case False
  then obtain e where e: "find (last (lru_list_' s)) (cache_' s) = Some e"
    using inv_last_cached[OF assms] by auto
  have d: "distinct (map fst (cache_' s))" "distinct (lru_list_' s)"
          "set (lru_list_' s) = set (map fst (cache_' s))"
    using assms by (simp_all add: recency_invariant_def)
  have "set (butlast (lru_list_' s)) = set (map fst (erase (last (lru_list_' s)) (cache_' s)))"
    using d False by (simp add: keys_erase set_butlast_distinct)
  then show ?thesis
    using d distinct_erase[OF d(1)] by (simp add: evict_lru_item_cached[OF False e] recency_invariant_def distinct_butlast)
qed

lemma evict_sum:
  assumes "recency_invariant s" "sum_size_bytes (cache_' s) = current_memory_bytes_' s"
  shows "sum_size_bytes (cache_' (evict_lru_item s)) = current_memory_bytes_' (evict_lru_item s)"
proof (cases "lru_list_' s = []")
  case True
  then show ?thesis using assms by (simp add: evict_lru_item_def)
next
  case False
  then obtain e where e: "find (last (lru_list_' s)) (cache_' s) = Some e"
    using inv_last_cached[OF assms(1)] by auto
  have d: "distinct (map fst (cache_' s))" using assms(1) by (simp add: recency_invariant_def)
  show ?thesis using assms(2) sum_erase[OF d e] by (simp add: evict_lru_item_cached[OF False e])
qed

lemma evict_length:
  assumes "recency_invariant s" "cache_' s \<noteq> []"
  shows "Suc (length (cache_' (evict_lru_item s))) = length (cache_' s)"
proof -
  have ne: "lru_list_' s \<noteq> []" by (rule inv_lru_nonempty[OF assms])
  then obtain e where e: "find (last (lru_list_' s)) (cache_' s) = Some e"
    using inv_last_cached[OF assms(1)] by auto
  have d: "distinct (map fst (cache_' s))" using assms(1) by (simp add: recency_invariant_def)
  show ?thesis using length_erase[OF d e] by (simp add: evict_lru_item_cached[OF ne e])
qed

lemma evict_frame:
  "max_memory_bytes_' (evict_lru_item s) = max_memory_bytes_' s"
  by (simp add: evict_lru_item_def Let_def split: option.splits)

lemma evicted_0: "evicted 0 s = s"
  by (simp add: evicted_def)

lemma evicted_Suc: "evicted (Suc n) s = evicted n (evict_lru_item s)"
  by (simp add: evicted_def funpow_swap1)

lemma evicted_Suc': "evicted (Suc n) s = evict_lru_item (evicted n s)"
  by (simp add: evicted_def)

lemma put_evict_loop_stop: "\<not> must_evict sz s \<Longrightarrow> put_evict_loop sz s = Some s"
  by (subst put_evict_loop.simps) (auto simp: must_evict_def over_budget_def)

lemma put_evict_loop_step: "must_evict sz s \<Longrightarrow> put_evict_loop sz s = put_evict_loop sz (evict_lru_item s)"
  by (subst put_evict_loop.simps) (simp add: must_evict_def over_budget_def)

lemma put_evict_loop_evicted:
  assumes "length (cache_' s) = k" "recency_invariant s"
  shows "\<exists>n \<le> length (cache_' s).
           put_evict_loop sz s = Some (evicted n s) \<and>
           (\<forall>i < n. must_evict sz (evicted i s)) \<and>
           (\<forall>i \<le> n. recency_invariant (evicted i s)) \<and>
           \<not> must_evict sz (evicted n s)"
  using assms
proof (induction k arbitrary: s)
  case 0
  then have stop: "\<not> must_evict sz s" by (simp add: must_evict_def)
  show ?case using put_evict_loop_stop[OF stop] stop 0(2) by (intro exI[of _ 0]) (simp add: evicted_0)
next
  case (Suc k)
  show ?case
  proof (cases "must_evict sz s")
    case False
    show ?thesis using put_evict_loop_stop[OF False] False Suc.prems(2) by (intro exI[of _ 0]) (simp add: evicted_0)
  next
    case True
    let ?s = "evict_lru_item s"
    have ne: "cache_' s \<noteq> []" using True by (simp add: must_evict_def)
    have len: "length (cache_' ?s) = k"
      using evict_length[OF Suc.prems(2) ne] Suc.prems(1) by simp
    have inv: "recency_invariant ?s" by (rule evict_recency[OF Suc.prems(2)])
    from Suc.IH[OF len inv] obtain n where n: "n \<le> length (cache_' ?s)"
      "put_evict_loop sz ?s = Some (evicted n ?s)"
      "\<forall>i < n. must_evict sz (evicted i ?s)"
      "\<forall>i \<le> n. recency_invariant (evicted i ?s)"
      "\<not> must_evict sz (evicted n ?s)"
      by blast
    have all: "\<forall>i < Suc n. must_evict sz (evicted i s)"
    proof (intro allI impI)
      fix i assume i: "i < Suc n"
      show "must_evict sz (evicted i s)"
      proof (cases i)
        case 0
        then show ?thesis using True by (simp add: evicted_0)
      next
        case (Suc j)
        then have "j < n" using i by simp
        then show ?thesis using n(3) Suc by (simp add: evicted_Suc)
      qed
    qed
    have invs: "\<forall>i \<le> Suc n. recency_invariant (evicted i s)"
    proof (intro allI impI)
      fix i assume i: "i \<le> Suc n"
      show "recency_invariant (evicted i s)"
      proof (cases i)
        case 0
        then show ?thesis using Suc.prems(2) by (simp add: evicted_0)
      next
        case (Suc j)
        then have "j \<le> n" using i by simp
        then show ?thesis using n(4) Suc by (simp add: evicted_Suc)
      qed
    qed
    have bound: "Suc n \<le> length (cache_' s)" using n(1) len Suc.prems(1) by simp
    have res: "put_evict_loop sz s = Some (evicted (Suc n) s)"
      using put_evict_loop_step[OF True] n(2) by (simp add: evicted_Suc)
    have last: "\<not> must_evict sz (evicted (Suc n) s)" using n(5) by (simp add: evicted_Suc)
    show ?thesis using bound res all invs last by blast
  qed
qed

lemma evicted_ok:
  assumes "recency_invariant s" "sum_size_bytes (cache_' s) = current_memory_bytes_' s"
  shows "recency_invariant (evicted n s) \<and>
         sum_size_bytes (cache_' (evicted n s)) = current_memory_bytes_' (evicted n s)"
  using assms
proof (induction n)
  case 0
  then show ?case by (simp add: evicted_0)
next
  case (Suc n)
  then show ?case by (simp add: evicted_Suc' evict_recency evict_sum)
qed

lemma persist_frame:
  "cache_' (persist_to_disk fo key d s) = cache_' s"
  "lru_list_' (persist_to_disk fo key d s) = lru_list_' s"
  "current_memory_bytes_' (persist_to_disk fo key d s) = current_memory_bytes_' s"
  "max_memory_bytes_' (persist_to_disk fo key d s) = max_memory_bytes_' s"
  "total_requests_' (persist_to_disk fo key d s) = total_requests_' s"
  "cache_hits_' (persist_to_disk fo key d s) = cache_hits_' s"
  by (simp_all add: persist_to_disk_def)

lemma put_after_loop:
  assumes "put_evict_loop (estimate_memory_usage d) s = Some s1"
  shows "put key d now fo s =
     Some (if over_budget (estimate_memory_usage d) s1 then s1
           else persist_to_disk fo key d
             (case find key (cache_' s1) of
                None \<Rightarrow>
                  s1\<lparr> cache_' := assign key \<lparr> data = d, size_bytes = estimate_memory_usage d, last_accessed = now, created = now \<rparr> (cache_' s1),
                      current_memory_bytes_' := current_memory_bytes_' s1 + estimate_memory_usage d,
                      lru_list_' := key # lru_list_' s1 \<rparr>
              | Some existing \<Rightarrow>
                  s1\<lparr> cache_' := assign key \<lparr> data = d, size_bytes = estimate_memory_usage d, last_accessed = now, created = now \<rparr> (cache_' s1),
                      current_memory_bytes_' := current_memory_bytes_' s1 - size_bytes existing + estimate_memory_usage d,
                      lru_list_' := key # removeAll key (lru_list_' s1) \<rparr>))"
  using assms by (simp add: put_def Let_def over_budget_def split: option.splits)

lemma insert_ok:
  assumes "recency_invariant s1" "sum_size_bytes (cache_' s1) = current_memory_bytes_' s1"
    and "size_bytes entry = sz"
    and "s3 = (case find key (cache_' s1) of
                None \<Rightarrow>
                  s1\<lparr> cache_' := assign key entry (cache_' s1),
                      current_memory_bytes_' := current_memory_bytes_' s1 + sz,
                      lru_list_' := key # lru_list_' s1 \<rparr>
              | Some existing \<Rightarrow>
                  s1\<lparr> cache_' := assign key entry (cache_' s1),
                      current_memory_bytes_' := current_memory_bytes_' s1 - size_bytes existing + sz,
                      lru_list_' := key # removeAll key (lru_list_' s1) \<rparr>)"
  shows "recency_invariant s3 \<and> sum_size_bytes (cache_' s3) = current_memory_bytes_' s3"
proof -
  have d: "distinct (map fst (cache_' s1))" "distinct (lru_list_' s1)"
          "set (lru_list_' s1) = set (map fst (cache_' s1))"
    using assms(1) by (simp_all add: recency_invariant_def)
  show ?thesis
  proof (cases "find key (cache_' s1)")
    case None
    then have notin: "key \<notin> set (lru_list_' s1)" using d(3) by (simp add: find_None_iff)
    have s3: "s3 = s1\<lparr> cache_' := assign key entry (cache_' s1),
                      current_memory_bytes_' := current_memory_bytes_' s1 + sz,
                      lru_list_' := key # lru_list_' s1 \<rparr>"
      using assms(4) None by simp
    have "recency_invariant s3"
      using d notin distinct_assign[OF d(1)] keys_assign[of key entry "cache_' s1"]
      by (simp add: s3 recency_invariant_def)
    moreover have "sum_size_bytes (cache_' s3) = current_memory_bytes_' s3"
      using sum_assign_new[OF None] assms(2,3) by (simp add: s3)
    ultimately show ?thesis by simp
  next
    case (Some existing)
    then have "key \<in> set (map fst (cache_' s1))" using find_None_iff[of key "cache_' s1"] by auto
    then have isin: "insert key (set (map fst (cache_' s1))) = set (map fst (cache_' s1))" by auto
    have s3: "s3 = s1\<lparr> cache_' := assign key entry (cache_' s1),
                      current_memory_bytes_' := current_memory_bytes_' s1 - size_bytes existing + sz,
                      lru_list_' := key # removeAll key (lru_list_' s1) \<rparr>"
      using assms(4) Some by simp
    have "set (key # removeAll key (lru_list_' s1)) = set (map fst (assign key entry (cache_' s1)))"
      using d(3) isin keys_assign[of key entry "cache_' s1"] by auto
    then have "recency_invariant s3"
      using d distinct_assign[OF d(1)]
      by (simp add: s3 recency_invariant_def distinct_removeAll)
    moreover have "sum_size_bytes (cache_' s3) = current_memory_bytes_' s3"
      using sum_assign_old[OF Some] assms(2,3) by (simp add: s3)
    ultimately show ?thesis by simp
  qed
qed

lemma put_ok:
  assumes "recency_invariant s" "sum_size_bytes (cache_' s) = current_memory_bytes_' s"
    and "put key d now fo s = Some s'"
  shows "recency_invariant s' \<and> sum_size_bytes (cache_' s') = current_memory_bytes_' s'"
proof -
  let ?sz = "estimate_memory_usage d"
  let ?e = "\<lparr> data = d, size_bytes = ?sz, last_accessed = now, created = now \<rparr>"
  obtain n where n: "put_evict_loop ?sz s = Some (evicted n s)"
    using put_evict_loop_evicted[OF refl assms(1), of ?sz] by blast
  let ?s1 = "evicted n s"
  have ok1: "recency_invariant ?s1" "sum_size_bytes (cache_' ?s1) = current_memory_bytes_' ?s1"
    using evicted_ok[OF assms(1,2), of n] by simp_all
  show ?thesis
  proof (cases "over_budget ?sz ?s1")
    case True
    then have "s' = ?s1" using assms(3) put_after_loop[OF n, of key now fo] by simp
    then show ?thesis using ok1 by simp
  next
    case False
    define s3 where "s3 = (case find key (cache_' ?s1) of
                None \<Rightarrow>
                  ?s1\<lparr> cache_' := assign key ?e (cache_' ?s1),
                      current_memory_bytes_' := current_memory_bytes_' ?s1 + ?sz,
                      lru_list_' := key # lru_list_' ?s1 \<rparr>
              | Some existing \<Rightarrow>
                  ?s1\<lparr> cache_' := assign key ?e (cache_' ?s1),
                      current_memory_bytes_' := current_memory_bytes_' ?s1 - size_bytes existing + ?sz,
                      lru_list_' := key # removeAll key (lru_list_' ?s1) \<rparr>)"
    have "s' = persist_to_disk fo key d s3"
      using assms(3) put_after_loop[OF n, of key now fo] False by (simp add: s3_def)
    moreover have "recency_invariant s3 \<and> sum_size_bytes (cache_' s3) = current_memory_bytes_' s3"
      by (rule insert_ok[OF ok1 _ s3_def]) simp
    ultimately show ?thesis by (simp add: recency_invariant_def persist_frame)
  qed
qed

lemma get_ok:
  assumes "recency_invariant s" "sum_size_bytes (cache_' s) = current_memory_bytes_' s"
  shows "recency_invariant (snd (get key now s)) \<and>
         sum_size_bytes (cache_' (snd (get key now s))) = current_memory_bytes_' (snd (get key now s))"
proof (cases "find key (cache_' s)")
  case None
  then show ?thesis using assms by (simp add: get_def)
next
  case (Some e)
  have d: "distinct (map fst (cache_' s))" "distinct (lru_list_' s)"
          "set (lru_list_' s) = set (map fst (cache_' s))"
    using assms(1) by (simp_all add: recency_invariant_def)
  have "key \<in> set (map fst (cache_' s))" using Some find_None_iff[of key "cache_' s"] by auto
  then have isin: "insert key (set (map fst (cache_' s))) = set (map fst (cache_' s))" by auto
  have g: "snd (get key now s) =
          s\<lparr> cache_' := assign key (e\<lparr> last_accessed := now \<rparr>) (cache_' s),
             lru_list_' := key # removeAll key (lru_list_' s) \<rparr>"
    using Some by (simp add: get_def)
  have "set (key # removeAll key (lru_list_' s)) = set (map fst (assign key (e\<lparr> last_accessed := now \<rparr>) (cache_' s)))"
    using d(3) isin keys_assign[of key "e\<lparr> last_accessed := now \<rparr>" "cache_' s"] by auto
  then have "recency_invariant (snd (get key now s))"
    using d distinct_assign[OF d(1)] by (simp add: g recency_invariant_def distinct_removeAll)
  moreover have "sum_size_bytes (cache_' (snd (get key now s))) = current_memory_bytes_' (snd (get key now s))"
    using sum_assign_old[OF Some, of "e\<lparr> last_accessed := now \<rparr>"] assms(2) by (simp add: g)
  ultimately show ?thesis by simp
qed

lemma remove_ok:
  assumes "recency_invariant s" "sum_size_bytes (cache_' s) = current_memory_bytes_' s"
  shows "recency_invariant (remove key s) \<and>
         sum_size_bytes (cache_' (remove key s)) = current_memory_bytes_' (remove key s)"
proof (cases "find key (cache_' s)")
  case None
  then show ?thesis using assms by (simp add: remove_def)
next
  case (Some e)
  have d: "distinct (map fst (cache_' s))" "distinct (lru_list_' s)"
          "set (lru_list_' s) = set (map fst (cache_' s))"
    using assms(1) by (simp_all add: recency_invariant_def)
  have r: "remove key s =
          s\<lparr> current_memory_bytes_' := current_memory_bytes_' s - size_bytes e,
             lru_list_' := removeAll key (lru_list_' s),
             cache_' := erase key (cache_' s),
             disk := (disk s)(key := None) \<rparr>"
    using Some by (simp add: remove_def)
  have "recency_invariant (remove key s)"
    using d distinct_erase[OF d(1)] by (simp add: r recency_invariant_def distinct_removeAll keys_erase)
  moreover have "sum_size_bytes (cache_' (remove key s)) = current_memory_bytes_' (remove key s)"
    using sum_erase[OF d(1) Some] assms(2) by (simp add: r)
  ultimately show ?thesis by simp
qed

text \<open>
  The removal of a list of keys, one call of \<open>remove\<close> after the other, leads from a
  reachable state to a reachable state.
\<close>

lemma reachable_fold_remove: "reachable s \<Longrightarrow> reachable (fold remove ks s)"
proof (induction ks arbitrary: s)
  case Nil
  then show ?case by simp
next
  case (Cons k ks)
  have "reachable (remove k s)" by (rule reachable.after_remove[OF Cons.prems])
  then show ?case using Cons.IH[of "remove k s"] by simp
qed

lemma reachable_ok:
  "reachable s \<Longrightarrow>
   recency_invariant s \<and> sum_size_bytes (cache_' s) = current_memory_bytes_' s"
proof (induction rule: reachable.induct)
  case (init max_memory_mb files metadata)
  show ?case by (simp add: CacheManager_def recency_invariant_def sum_size_bytes_def)
next
  case (after_put s key d now file_opens s1)
  then show ?case using put_ok by blast
next
  case (after_get s key now)
  then show ?case using get_ok by blast
next
  case (after_remove s key)
  then show ?case using remove_ok by blast
next
  case (after_clear s)
  show ?case by (simp add: clear_def recency_invariant_def sum_size_bytes_def)
next
  case (after_cleanup s max_age now s1)
  from after_cleanup(2) have "s1 = s"
    by (simp add: cleanup_expired_entries_def Let_def split: if_splits)
  with after_cleanup.IH show ?case by simp
next
  case (after_evict s)
  then show ?case using evict_recency evict_sum by blast
qed

lemma over_budget_nat:
  assumes "unat (current_memory_bytes_' s) + unat data_size < 2 ^ 64"
  shows "over_budget data_size s \<longleftrightarrow>
         unat (max_memory_bytes_' s) < unat (current_memory_bytes_' s) + unat data_size"
proof -
  have "unat (current_memory_bytes_' s + data_size) = unat (current_memory_bytes_' s) + unat data_size"
    using assms unat_add_lem[of "current_memory_bytes_' s" data_size] by simp
  then show ?thesis by (simp add: over_budget_def word_less_nat_alt)
qed

lemma get_keeps_counters:
  "total_requests_' (snd (get key now s)) = total_requests_' s \<and>
   cache_hits_' (snd (get key now s)) = cache_hits_' s"
  by (simp add: get_def split: option.splits)

lemma put_keeps_counters:
  assumes "recency_invariant s" "put key d now file_opens s = Some s1"
  shows "total_requests_' s1 = total_requests_' s \<and> cache_hits_' s1 = cache_hits_' s"
proof -
  have ev: "total_requests_' (evict_lru_item t) = total_requests_' t \<and>
            cache_hits_' (evict_lru_item t) = cache_hits_' t" for t :: "'a CacheManager"
    by (simp add: evict_lru_item_def Let_def split: option.splits)
  have evn: "total_requests_' (evicted n s) = total_requests_' s \<and>
             cache_hits_' (evicted n s) = cache_hits_' s" for n
    by (induction n) (simp_all add: evicted_0 evicted_Suc' ev)
  obtain n where n: "put_evict_loop (estimate_memory_usage d) s = Some (evicted n s)"
    using put_evict_loop_evicted[OF refl assms(1), of "estimate_memory_usage d"] by blast
  show ?thesis
    using assms(2) evn[of n] put_after_loop[OF n, of key now file_opens]
    by (auto simp: persist_frame split: if_splits option.splits)
qed

lemma hit_rate_no_requests: "total_requests_' s = 0 \<Longrightarrow> hit_rate s = 0"
  by (simp add: hit_rate_def)

text \<open>
  Claim C5.  In every state that a cache object reaches through \<open>put\<close>, \<open>get\<close>,
  \<open>remove\<close>, \<open>clear\<close>, \<open>cleanup_expired_entries\<close> and evictions, the sum of
  \<open>size_bytes\<close> over the entries of the map (a \<open>size_t\<close> sum, as the counter is)
  equals \<open>current_memory_bytes_\<close>, which is what \<open>memory_usage()\<close> reports.
\<close>

theorem memory_usage_is_sum_of_sizes:
  "reachable s \<Longrightarrow>
   sum_size_bytes (cache_' s) = current_memory_bytes_' s \<and>
   memory_usage s = sum_size_bytes (cache_' s)"
  using reachable_ok[of s] by (simp add: memory_usage_def)

text \<open>
  Claim C6.  In every such state the recency list is a permutation of the key set of the
  map: it has no duplicates, it holds exactly the cached keys, and it is as long as the
  map is large.
\<close>

theorem recency_list_is_permutation:
  assumes "reachable s"
  shows "distinct (lru_list_' s) \<and> distinct (map fst (cache_' s)) \<and>
         set (lru_list_' s) = set (map fst (cache_' s)) \<and>
         length (lru_list_' s) = size_of_cache s"
proof -
  have d: "distinct (map fst (cache_' s))" "distinct (lru_list_' s)"
          "set (lru_list_' s) = set (map fst (cache_' s))"
    using reachable_ok[OF assms] by (simp_all add: recency_invariant_def)
  have "length (lru_list_' s) = card (set (lru_list_' s))" using d(2) by (simp add: distinct_card)
  also have "\<dots> = card (set (map fst (cache_' s)))" using d(3) by simp
  also have "\<dots> = length (map fst (cache_' s))" using d(1) by (rule distinct_card)
  finally have "length (lru_list_' s) = size_of_cache s" by (simp add: size_of_cache_def)
  then show ?thesis using d by simp
qed

text \<open>
  Claim C10.  In a state that satisfies the recency invariant, \<open>put\<close> returns: its
  eviction loop runs \<open>n\<close> rounds for some \<open>n\<close> of at most \<open>size()\<close>; before each round
  the loop condition holds and the round removes exactly one entry of the map; after the
  last round the condition is false.
\<close>

theorem put_terminates:
  assumes "recency_invariant s"
  shows "\<exists>n s1. n \<le> size_of_cache s \<and>
           put_evict_loop (estimate_memory_usage d) s = Some (evicted n s) \<and>
           (\<forall>i < n. must_evict (estimate_memory_usage d) (evicted i s) \<and>
                    Suc (size_of_cache (evicted (Suc i) s)) = size_of_cache (evicted i s)) \<and>
           \<not> must_evict (estimate_memory_usage d) (evicted n s) \<and>
           put key d now file_opens s = Some s1"
proof -
  let ?sz = "estimate_memory_usage d"
  obtain n where n: "n \<le> length (cache_' s)" "put_evict_loop ?sz s = Some (evicted n s)"
      "\<forall>i < n. must_evict ?sz (evicted i s)" "\<forall>i \<le> n. recency_invariant (evicted i s)"
      "\<not> must_evict ?sz (evicted n s)"
    using put_evict_loop_evicted[OF refl assms, of ?sz] by blast
  have dec: "\<forall>i < n. must_evict ?sz (evicted i s) \<and>
                    Suc (size_of_cache (evicted (Suc i) s)) = size_of_cache (evicted i s)"
  proof (intro allI impI)
    fix i assume i: "i < n"
    then have m: "must_evict ?sz (evicted i s)" and inv: "recency_invariant (evicted i s)"
      using n(3,4) by simp_all
    then have "cache_' (evicted i s) \<noteq> []" by (simp add: must_evict_def)
    then have "Suc (size_of_cache (evicted (Suc i) s)) = size_of_cache (evicted i s)"
      using evict_length[OF inv] by (simp add: size_of_cache_def evicted_Suc')
    then show "must_evict ?sz (evicted i s) \<and>
                    Suc (size_of_cache (evicted (Suc i) s)) = size_of_cache (evicted i s)"
      using m by simp
  qed
  have "\<exists>s1. put key d now file_opens s = Some s1"
    using put_after_loop[OF n(2), of key now file_opens] by simp
  then obtain s1 where "put key d now file_opens s = Some s1" by blast
  then show ?thesis using n(1,2,5) dec by (intro exI[of _ n] exI[of _ s1]) (simp add: size_of_cache_def)
qed

text \<open>
  Claim C2.  \<open>put(key, payload)\<close> on a cache in any state it can reach.  The loop runs
  some \<open>n\<close> rounds; before each round the payload is over the budget (in the source's
  \<open>size_t\<close> arithmetic; lemma \<open>over_budget_nat\<close> relates it to the sum of the two
  numbers) and the map is not empty, and the round evicts the key at the back of the
  recency list, which is cached.  After the loop, if the payload is still over the budget,
  \<open>put\<close> returns with nothing stored and the cache is empty; otherwise the map holds
  the new entry under the key, every other key is as the loop left it, and the key is at
  the front of the recency list, in which it occurs once.
\<close>

theorem put_evicts_then_inserts_or_drops:
  assumes "reachable s"
  shows "\<exists>n \<le> size_of_cache s.
     (\<forall>i < n. must_evict (estimate_memory_usage d) (evicted i s) \<and>
              lru_list_' (evicted i s) \<noteq> [] \<and>
              contains (last (lru_list_' (evicted i s))) (evicted i s) \<and>
              lru_list_' (evicted (Suc i) s) = butlast (lru_list_' (evicted i s)) \<and>
              cache_' (evicted (Suc i) s) =
                erase (last (lru_list_' (evicted i s))) (cache_' (evicted i s))) \<and>
     \<not> must_evict (estimate_memory_usage d) (evicted n s) \<and>
     (if over_budget (estimate_memory_usage d) (evicted n s)
      then put key d now file_opens s = Some (evicted n s) \<and>
           cache_' (evicted n s) = [] \<and> lru_list_' (evicted n s) = [] \<and>
           current_memory_bytes_' (evicted n s) = 0
      else \<exists>s2. put key d now file_opens s = Some s2 \<and>
           find key (cache_' s2) =
             Some \<lparr> data = d, size_bytes = estimate_memory_usage d,
                    last_accessed = now, created = now \<rparr> \<and>
           (\<forall>k. k \<noteq> key \<longrightarrow> find k (cache_' s2) = find k (cache_' (evicted n s))) \<and>
           lru_list_' s2 = key # removeAll key (lru_list_' (evicted n s)))"
proof -
  let ?sz = "estimate_memory_usage d"
  let ?e = "\<lparr> data = d, size_bytes = ?sz, last_accessed = now, created = now \<rparr>"
  have ok: "recency_invariant s" "sum_size_bytes (cache_' s) = current_memory_bytes_' s"
    using reachable_ok[OF assms] by simp_all
  obtain n where n: "n \<le> length (cache_' s)" "put_evict_loop ?sz s = Some (evicted n s)"
      "\<forall>i < n. must_evict ?sz (evicted i s)" "\<forall>i \<le> n. recency_invariant (evicted i s)"
      "\<not> must_evict ?sz (evicted n s)"
    using put_evict_loop_evicted[OF refl ok(1), of ?sz] by blast
  let ?s1 = "evicted n s"
  have ok1: "recency_invariant ?s1" "sum_size_bytes (cache_' ?s1) = current_memory_bytes_' ?s1"
    using evicted_ok[OF ok, of n] by simp_all
  have rounds: "\<forall>i < n. must_evict ?sz (evicted i s) \<and>
              lru_list_' (evicted i s) \<noteq> [] \<and>
              contains (last (lru_list_' (evicted i s))) (evicted i s) \<and>
              lru_list_' (evicted (Suc i) s) = butlast (lru_list_' (evicted i s)) \<and>
              cache_' (evicted (Suc i) s) =
                erase (last (lru_list_' (evicted i s))) (cache_' (evicted i s))"
  proof (intro allI impI)
    fix i assume i: "i < n"
    let ?si = "evicted i s"
    have m: "must_evict ?sz ?si" and inv: "recency_invariant ?si" using i n(3,4) by simp_all
    have ne: "lru_list_' ?si \<noteq> []"
      using inv_lru_nonempty[OF inv] m by (simp add: must_evict_def)
    obtain e where e: "find (last (lru_list_' ?si)) (cache_' ?si) = Some e"
      using inv_last_cached[OF inv ne] by blast
    have "evicted (Suc i) s = ?si\<lparr> lru_list_' := butlast (lru_list_' ?si),
              current_memory_bytes_' := current_memory_bytes_' ?si - size_bytes e,
              cache_' := erase (last (lru_list_' ?si)) (cache_' ?si) \<rparr>"
      using evict_lru_item_cached[OF ne e] by (simp add: evicted_Suc')
    then show "must_evict ?sz ?si \<and> lru_list_' ?si \<noteq> [] \<and>
              contains (last (lru_list_' ?si)) ?si \<and>
              lru_list_' (evicted (Suc i) s) = butlast (lru_list_' ?si) \<and>
              cache_' (evicted (Suc i) s) = erase (last (lru_list_' ?si)) (cache_' ?si)"
      using m ne e by (simp add: contains_def)
  qed
  have final: "if over_budget ?sz ?s1
      then put key d now file_opens s = Some ?s1 \<and>
           cache_' ?s1 = [] \<and> lru_list_' ?s1 = [] \<and> current_memory_bytes_' ?s1 = 0
      else \<exists>s2. put key d now file_opens s = Some s2 \<and> find key (cache_' s2) = Some ?e \<and>
           (\<forall>k. k \<noteq> key \<longrightarrow> find k (cache_' s2) = find k (cache_' ?s1)) \<and>
           lru_list_' s2 = key # removeAll key (lru_list_' ?s1)"
  proof (cases "over_budget ?sz ?s1")
    case True
    then have empty: "cache_' ?s1 = []" using n(5) by (simp add: must_evict_def)
    then have "lru_list_' ?s1 = []" using ok1(1) by (simp add: recency_invariant_def)
    moreover have "current_memory_bytes_' ?s1 = 0"
      using ok1(2) empty by (simp add: sum_size_bytes_def)
    moreover have "put key d now file_opens s = Some ?s1"
      using put_after_loop[OF n(2), of key now file_opens] True by simp
    ultimately show ?thesis using True empty by simp
  next
    case False
    show ?thesis
    proof (cases "find key (cache_' ?s1)")
      case None
      then have "key \<notin> set (lru_list_' ?s1)"
        using ok1(1) by (simp add: find_None_iff recency_invariant_def)
      then have same: "removeAll key (lru_list_' ?s1) = lru_list_' ?s1" by simp
      let ?s2 = "persist_to_disk file_opens key d
           (?s1\<lparr> cache_' := assign key ?e (cache_' ?s1),
                  current_memory_bytes_' := current_memory_bytes_' ?s1 + ?sz,
                  lru_list_' := key # lru_list_' ?s1 \<rparr>)"
      have "put key d now file_opens s = Some ?s2"
        using put_after_loop[OF n(2), of key now file_opens] False None by simp
      moreover have "find key (cache_' ?s2) = Some ?e" by (simp add: persist_frame find_assign)
      moreover have "\<forall>k. k \<noteq> key \<longrightarrow> find k (cache_' ?s2) = find k (cache_' ?s1)"
        by (simp add: persist_frame find_assign)
      moreover have "lru_list_' ?s2 = key # removeAll key (lru_list_' ?s1)"
        using same by (simp add: persist_frame)
      ultimately have "\<exists>s2. put key d now file_opens s = Some s2 \<and> find key (cache_' s2) = Some ?e \<and>
           (\<forall>k. k \<noteq> key \<longrightarrow> find k (cache_' s2) = find k (cache_' ?s1)) \<and>
           lru_list_' s2 = key # removeAll key (lru_list_' ?s1)"
        by (intro exI[of _ ?s2]) simp
      then show ?thesis using False by simp
    next
      case (Some existing)
      let ?s2 = "persist_to_disk file_opens key d
           (?s1\<lparr> cache_' := assign key ?e (cache_' ?s1),
                  current_memory_bytes_' := current_memory_bytes_' ?s1 - size_bytes existing + ?sz,
                  lru_list_' := key # removeAll key (lru_list_' ?s1) \<rparr>)"
      have "put key d now file_opens s = Some ?s2"
        using put_after_loop[OF n(2), of key now file_opens] False Some by simp
      moreover have "find key (cache_' ?s2) = Some ?e" by (simp add: persist_frame find_assign)
      moreover have "\<forall>k. k \<noteq> key \<longrightarrow> find k (cache_' ?s2) = find k (cache_' ?s1)"
        by (simp add: persist_frame find_assign)
      moreover have "lru_list_' ?s2 = key # removeAll key (lru_list_' ?s1)"
        by (simp add: persist_frame)
      ultimately have "\<exists>s2. put key d now file_opens s = Some s2 \<and> find key (cache_' s2) = Some ?e \<and>
           (\<forall>k. k \<noteq> key \<longrightarrow> find k (cache_' s2) = find k (cache_' ?s1)) \<and>
           lru_list_' s2 = key # removeAll key (lru_list_' ?s1)"
        by (intro exI[of _ ?s2]) simp
      then show ?thesis using False by simp
    qed
  qed
  show ?thesis
    using n(1,5) rounds final by (intro exI[of _ n]) (simp add: size_of_cache_def)
qed

text \<open>
  Claim C4, as amended.  \<open>remove(key)\<close> on a key that has an entry in the map erases
  the entry, subtracts its \<open>size_bytes\<close> from \<open>current_memory_bytes_\<close>, takes the key
  out of the recency list and deletes the file of the key; the other keys and files stay.
  On a key without an entry in the map it changes nothing, a file of the key included.
\<close>

theorem remove_deletes_entry_and_its_file:
  "(find key (cache_' s) = None \<longrightarrow> remove key s = s) \<and>
   (\<forall>entry. find key (cache_' s) = Some entry \<longrightarrow>
      find key (cache_' (remove key s)) = None \<and>
      current_memory_bytes_' (remove key s) = current_memory_bytes_' s - size_bytes entry \<and>
      lru_list_' (remove key s) = removeAll key (lru_list_' s) \<and>
      key \<notin> set (lru_list_' (remove key s)) \<and>
      disk (remove key s) key = None \<and>
      (\<forall>k. k \<noteq> key \<longrightarrow> find k (cache_' (remove key s)) = find k (cache_' s) \<and>
                       disk (remove key s) k = disk s k))"
  by (simp add: remove_def find_erase)

lemmas cache_eval =
  put_def put_evict_loop.simps evict_lru_item_def estimate_memory_usage_def
  sizeof_MarketDataPoint_def sizeof_vector_def CacheManager_def find_def erase_def
  persist_to_disk_def get_def Let_def word_less_nat_alt

lemma sample_put:
  "put ''AAPL'' sample_series 1 True (CacheManager 1 Map.empty None) = Some sample_cache"
  by (simp add: cache_eval sample_series_def sample_cache_def)

lemma sample_reachable: "reachable sample_cache"
  by (rule reachable.after_put[OF reachable.init sample_put])

lemma eviction_run:
  "Option.bind (put ''a'' (big_series ''A'') 1 True (CacheManager 1 Map.empty None))
     (put ''b'' (big_series ''B'') 2 True) = Some cache_after_eviction"
  by (simp add: cache_eval big_series_def cache_after_eviction_def)

text \<open>
  Claim C4 as stated, with the file deleted also for a key that is not in the map: the
  key \<open>a\<close> is put, then evicted by the \<open>put\<close> of \<open>b\<close>; its file is still there, and it
  is still there after \<open>remove\<close> of \<open>a\<close>.
\<close>

theorem remove_of_evicted_key_counterexample:
  "Option.bind (put ''a'' (big_series ''A'') 1 True (CacheManager 1 Map.empty None))
     (put ''b'' (big_series ''B'') 2 True) = Some cache_after_eviction \<and>
   \<not> contains ''a'' cache_after_eviction \<and>
   disk cache_after_eviction ''a'' = Some (big_series ''A'') \<and>
   disk (remove ''a'' cache_after_eviction) ''a'' = Some (big_series ''A'')"
  using eviction_run by (simp add: cache_after_eviction_def contains_def find_def remove_def)

text \<open>
  Claim C1: the run of the claim on the code.  A \<open>get\<close> that misses, a \<open>put\<close> and a
  \<open>get\<close> that hits; neither \<open>get\<close> counts a request or a hit (lemmas
  \<open>get_keeps_counters\<close> and \<open>put_keeps_counters\<close>), so both counters are still 0 and
  \<open>hit_rate()\<close> is 0, not one half.
\<close>

theorem hit_rate_after_miss_put_hit:
  "fst (get ''AAPL'' 0 (CacheManager 1 Map.empty None :: unit CacheManager)) = None \<and>
   put ''AAPL'' sample_series 1 True (snd (get ''AAPL'' 0 (CacheManager 1 Map.empty None)))
     = Some sample_cache \<and>
   fst (get ''AAPL'' 2 sample_cache) = Some sample_series \<and>
   total_requests_' (snd (get ''AAPL'' 2 sample_cache)) = 0 \<and>
   cache_hits_' (snd (get ''AAPL'' 2 sample_cache)) = 0 \<and>
   hit_rate (snd (get ''AAPL'' 2 sample_cache)) = 0"
proof -
  have miss: "get ''AAPL'' 0 (CacheManager 1 Map.empty None :: unit CacheManager)
                = (None, CacheManager 1 Map.empty None)"
    by (simp add: get_def find_def CacheManager_def)
  have hit: "fst (get ''AAPL'' 2 sample_cache) = Some sample_series"
    "total_requests_' (snd (get ''AAPL'' 2 sample_cache)) = 0"
    "cache_hits_' (snd (get ''AAPL'' 2 sample_cache)) = 0"
    by (simp_all add: get_def find_def sample_cache_def)
  show ?thesis using miss hit sample_put by (simp add: hit_rate_def)
qed

lemma sample_invariant: "recency_invariant sample_cache"
  by (simp add: recency_invariant_def sample_cache_def)

text \<open>The theorem on the sample cache.\<close>

theorem memory_usage_is_sum_of_sizes_witness:
  "reachable sample_cache \<and>
   sum_size_bytes (cache_' sample_cache) = current_memory_bytes_' sample_cache \<and>
   memory_usage sample_cache = sum_size_bytes (cache_' sample_cache)"
  by (rule conjI[OF sample_reachable memory_usage_is_sum_of_sizes[OF sample_reachable]])

text \<open>The theorem on the sample cache.\<close>

theorem recency_list_is_permutation_witness:
  "reachable sample_cache \<and>
   distinct (lru_list_' sample_cache) \<and> distinct (map fst (cache_' sample_cache)) \<and>
   set (lru_list_' sample_cache) = set (map fst (cache_' sample_cache)) \<and>
   length (lru_list_' sample_cache) = size_of_cache sample_cache"
  by (rule conjI[OF sample_reachable recency_list_is_permutation[OF sample_reachable]])

text \<open>The theorem on the sample cache and the \<open>put\<close> of a big series.\<close>

theorem put_terminates_witness:
  "recency_invariant sample_cache \<and>
   (\<exists>n s1. n \<le> size_of_cache sample_cache \<and>
           put_evict_loop (estimate_memory_usage (big_series ''B'')) sample_cache = Some (evicted n sample_cache) \<and>
           (\<forall>i < n. must_evict (estimate_memory_usage (big_series ''B'')) (evicted i sample_cache) \<and>
                    Suc (size_of_cache (evicted (Suc i) sample_cache)) = size_of_cache (evicted i sample_cache)) \<and>
           \<not> must_evict (estimate_memory_usage (big_series ''B'')) (evicted n sample_cache) \<and>
           put ''b'' (big_series ''B'') 2 True sample_cache = Some s1)"
  by (rule conjI[OF sample_invariant put_terminates[OF sample_invariant]])

text \<open>The theorem on the sample cache and the \<open>put\<close> of a big series.\<close>

theorem put_evicts_then_inserts_or_drops_witness:
  "reachable sample_cache \<and>
   (\<exists>n \<le> size_of_cache sample_cache.
     (\<forall>i < n. must_evict (estimate_memory_usage (big_series ''B'')) (evicted i sample_cache) \<and>
              lru_list_' (evicted i sample_cache) \<noteq> [] \<and>
              contains (last (lru_list_' (evicted i sample_cache))) (evicted i sample_cache) \<and>
              lru_list_' (evicted (Suc i) sample_cache) = butlast (lru_list_' (evicted i sample_cache)) \<and>
              cache_' (evicted (Suc i) sample_cache) =
                erase (last (lru_list_' (evicted i sample_cache))) (cache_' (evicted i sample_cache))) \<and>
     \<not> must_evict (estimate_memory_usage (big_series ''B'')) (evicted n sample_cache) \<and>
     (if over_budget (estimate_memory_usage (big_series ''B'')) (evicted n sample_cache)
      then put ''b'' (big_series ''B'') 2 True sample_cache = Some (evicted n sample_cache) \<and>
           cache_' (evicted n sample_cache) = [] \<and> lru_list_' (evicted n sample_cache) = [] \<and>
           current_memory_bytes_' (evicted n sample_cache) = 0
      else \<exists>s2. put ''b'' (big_series ''B'') 2 True sample_cache = Some s2 \<and>
           find ''b'' (cache_' s2) =
             Some \<lparr> data = big_series ''B'', size_bytes = estimate_memory_usage (big_series ''B''),
                    last_accessed = 2, created = 2 \<rparr> \<and>
           (\<forall>k. k \<noteq> ''b'' \<longrightarrow> find k (cache_' s2) = find k (cache_' (evicted n sample_cache))) \<and>
           lru_list_' s2 = ''b'' # removeAll ''b'' (lru_list_' (evicted n sample_cache))))"
  by (rule conjI[OF sample_reachable put_evicts_then_inserts_or_drops[OF sample_reachable]])

text \<open>The theorem on the sample cache, for a key that is cached and for one that is not.\<close>

theorem remove_deletes_entry_and_its_file_witness:
  "find ''MSFT'' (cache_' sample_cache) = None \<and>
   remove ''MSFT'' sample_cache = sample_cache \<and>
   find ''AAPL'' (cache_' sample_cache) =
     Some \<lparr> data = sample_series, size_bytes = 224, last_accessed = 1, created = 1 \<rparr> \<and>
   find ''AAPL'' (cache_' (remove ''AAPL'' sample_cache)) = None \<and>
   current_memory_bytes_' (remove ''AAPL'' sample_cache) = 0 \<and>
   lru_list_' (remove ''AAPL'' sample_cache) = [] \<and>
   disk (remove ''AAPL'' sample_cache) ''AAPL'' = None"
proof -
  have h1: "find ''MSFT'' (cache_' sample_cache) = None"
    by (simp add: find_def sample_cache_def)
  have h2: "find ''AAPL'' (cache_' sample_cache) =
     Some \<lparr> data = sample_series, size_bytes = 224, last_accessed = 1, created = 1 \<rparr>"
    by (simp add: find_def sample_cache_def)
  have r1: "remove ''MSFT'' sample_cache = sample_cache"
    using remove_deletes_entry_and_its_file[of "''MSFT''" sample_cache] h1 by simp
  have r2: "find ''AAPL'' (cache_' (remove ''AAPL'' sample_cache)) = None"
    "current_memory_bytes_' (remove ''AAPL'' sample_cache) = current_memory_bytes_' sample_cache - 224"
    "lru_list_' (remove ''AAPL'' sample_cache) = removeAll ''AAPL'' (lru_list_' sample_cache)"
    "disk (remove ''AAPL'' sample_cache) ''AAPL'' = None"
    using remove_deletes_entry_and_its_file[of "''AAPL''" sample_cache] h2 by simp_all
  have "current_memory_bytes_' sample_cache - 224 = 0" "removeAll ''AAPL'' (lru_list_' sample_cache) = []"
    by (simp_all add: sample_cache_def)
  then show ?thesis using h1 h2 r1 r2 by simp
qed


end
